theory Spec2Isabelle
  imports Main "HOL-Library.Sublist"
begin

section \<open>Strings and character classes\<close>

text \<open>
  A JavaScript string is a sequence of UTF-16 code units. The model uses \<open>string\<close>
  (a list of \<open>char\<close>), each \<open>char\<close> standing for the code unit of the same number
  (U+0000 to U+00FF). The regular expressions of the source carry no \<open>u\<close> flag, so they
  work code unit by code unit, as the lists of the model do.
\<close>

definition code :: "char \<Rightarrow> nat" where
  "code c = of_char c"

definition isRegExpChar :: "char \<Rightarrow> bool" where
  \<comment> \<open>\<open>reRegExpChar = /[\\^$.*+?()[\]{}|]/g\<close>\<close>
  "isRegExpChar c \<longleftrightarrow> code c \<in> {0x5C, 0x5E, 0x24, 0x2E, 0x2A, 0x2B, 0x3F, 0x28, 0x29,
     0x5B, 0x5D, 0x7B, 0x7D, 0x7C}"

definition isWhiteSpace :: "char \<Rightarrow> bool" where
  \<comment> \<open>the class \<open>\s\<close> (white space and line terminators) below U+0100\<close>
  "isWhiteSpace c \<longleftrightarrow> code c \<in> {9, 10, 11, 12, 13, 32, 160}"

definition isWordBoundaryChar :: "char \<Rightarrow> bool" where
  \<comment> \<open>\<open>wordBoundaryChars = [".", "!", "?", "'", '"', "\\-", ",", "\\s"]\<close>, joined into a class\<close>
  "isWordBoundaryChar c \<longleftrightarrow> code c \<in> {0x2E, 0x21, 0x3F, 0x27, 0x22, 0x2D, 0x2C} \<or> isWhiteSpace c"

definition isWordChar :: "char \<Rightarrow> bool" where
  \<comment> \<open>the class \<open>\w\<close> that \<open>\b\<close> is defined from: \<open>[A-Za-z0-9_]\<close>\<close>
  "isWordChar c \<longleftrightarrow> (65 \<le> code c \<and> code c \<le> 90) \<or> (97 \<le> code c \<and> code c \<le> 122)
     \<or> (48 \<le> code c \<and> code c \<le> 57) \<or> code c = 95"

definition canonicalize :: "bool \<Rightarrow> char \<Rightarrow> char" where
  \<comment> \<open>Canonicalize of the language specification, for a pattern without the \<open>u\<close> flag: with
      \<open>ignoreCase\<close> a code unit is replaced by its upper case when that is one code unit.
      Below U+0100 the upper case of U+00B5 and of U+00FF lies outside the range and equals
      the upper case of no other code unit of the range, and U+00DF has a
      two-letter upper case: the three are left as they are.\<close>
  "canonicalize ignoreCase c =
     (if ignoreCase \<and> ((97 \<le> code c \<and> code c \<le> 122) \<or> (224 \<le> code c \<and> code c \<le> 254 \<and> code c \<noteq> 247))
      then char_of (code c - 32) else c)"

definition substring :: "string \<Rightarrow> nat \<Rightarrow> nat \<Rightarrow> string" where
  "substring s b e = take (e - b) (drop b s)"

section \<open>Regular expressions\<close>

text \<open>
  The patterns the source builds use literal characters, the assertions \<open>^\<close>, \<open>$\<close> and
  \<open>\b\<close>, one character class, alternation and concatenation. \<open>rx_run\<close> is the backtracking
  matcher of the language specification in continuation-passing style: it tries the
  alternatives from left to right and returns the end of the first match the
  continuation accepts.
\<close>

datatype rx =
    Chars string
  | Bol
  | Eol
  | WordB
  | Cls "char \<Rightarrow> bool"
  | Eps
  | Alt rx rx
  | Seq rx rx

definition isWordCharAt :: "string \<Rightarrow> int \<Rightarrow> bool" where
  "isWordCharAt s i \<longleftrightarrow> 0 \<le> i \<and> nat i < length s \<and> isWordChar (s ! nat i)"

primrec rx_run :: "rx \<Rightarrow> bool \<Rightarrow> string \<Rightarrow> nat \<Rightarrow> (nat \<Rightarrow> nat option) \<Rightarrow> nat option" where
  "rx_run (Chars l) = (\<lambda>ic s i k.
     if i + length l \<le> length s
        \<and> map (canonicalize ic) (substring s i (i + length l)) = map (canonicalize ic) l
     then k (i + length l) else None)"
| "rx_run Bol = (\<lambda>ic s i k. if i = 0 then k i else None)"
| "rx_run Eol = (\<lambda>ic s i k. if i = length s then k i else None)"
| "rx_run WordB = (\<lambda>ic s i k.
     if isWordCharAt s (int i - 1) \<noteq> isWordCharAt s (int i) then k i else None)"
| "rx_run (Cls P) = (\<lambda>ic s i k. if i < length s \<and> P (s ! i) then k (Suc i) else None)"
| "rx_run Eps = (\<lambda>ic s i k. k i)"
| "rx_run (Alt a b) = (\<lambda>ic s i k.
     case rx_run a ic s i k of Some e \<Rightarrow> Some e | None \<Rightarrow> rx_run b ic s i k)"
| "rx_run (Seq a b) = (\<lambda>ic s i k. rx_run a ic s i (\<lambda>j. rx_run b ic s j k))"

record regexp =
  source :: rx
  ignoreCase :: bool

definition rx_match_at :: "regexp \<Rightarrow> string \<Rightarrow> nat \<Rightarrow> nat option" where
  \<comment> \<open>one attempt to match at index \<open>i\<close>; the end index of the match\<close>
  "rx_match_at r s i = rx_run (source r) (ignoreCase r) s i Some"

function exec_from :: "regexp \<Rightarrow> string \<Rightarrow> nat \<Rightarrow> (nat \<times> nat) option" where
  \<comment> \<open>RegExpBuiltinExec without the sticky flag: from \<open>lastIndex\<close> on, the first index with a match\<close>
  "exec_from r s lastIndex =
     (if lastIndex > length s then None
      else case rx_match_at r s lastIndex of
             Some e \<Rightarrow> Some (lastIndex, e)
           | None \<Rightarrow> exec_from r s (Suc lastIndex))"
  by pat_completeness auto
termination
  by (relation "measure (\<lambda>(r, s, i). Suc (length s) - i)") auto

declare exec_from.simps [simp del]

lemma rx_run_progress:
  "rx_run a ic s i k = Some e \<Longrightarrow> \<exists>j. i \<le> j \<and> (i \<le> length s \<longrightarrow> j \<le> length s) \<and> k j = Some e"
proof (induction a arbitrary: i k)
  case (Alt a b)
  then show ?case by (auto split: option.splits)
next
  case (Seq a b)
  from Seq.prems have "rx_run a ic s i (\<lambda>j. rx_run b ic s j k) = Some e" by simp
  from Seq.IH(1)[OF this] obtain j where
    j: "i \<le> j" "i \<le> length s \<longrightarrow> j \<le> length s" "rx_run b ic s j k = Some e" by blast
  from Seq.IH(2)[OF j(3)] obtain j' where
    "j \<le> j'" "j \<le> length s \<longrightarrow> j' \<le> length s" "k j' = Some e" by blast
  with j show ?case by (intro exI[of _ j']) auto
next
  case (Chars l)
  then show ?case by (intro exI[of _ "i + length l"]) (auto split: if_splits)
next
  case (Cls P)
  then show ?case by (intro exI[of _ "Suc i"]) (auto split: if_splits)
qed (auto split: if_splits)

lemma rx_match_at_bounds:
  "rx_match_at r s i = Some e \<Longrightarrow> i \<le> e \<and> (i \<le> length s \<longrightarrow> e \<le> length s)"
  unfolding rx_match_at_def by (drule rx_run_progress) auto

lemma exec_from_bounds:
  "exec_from r s i = Some (b, e) \<Longrightarrow> i \<le> b \<and> b \<le> e \<and> e \<le> length s"
proof (induction r s i rule: exec_from.induct)
  case (1 r s lastIndex)
  show ?case
  proof (cases "rx_match_at r s lastIndex")
    case None
    with "1.prems" have "exec_from r s (Suc lastIndex) = Some (b, e)" "\<not> length s < lastIndex"
      by (auto simp: exec_from.simps[of r s lastIndex] split: if_splits)
    with "1.IH"[OF _ None] show ?thesis by auto
  next
    case (Some e')
    with "1.prems" have "b = lastIndex" "e = e'" "lastIndex \<le> length s"
      by (auto simp: exec_from.simps[of r s lastIndex] split: if_splits)
    with rx_match_at_bounds[OF Some] show ?thesis by auto
  qed
qed

function matchAll :: "regexp \<Rightarrow> string \<Rightarrow> nat \<Rightarrow> (nat \<times> nat) list" where
  \<comment> \<open>the loop of \<open>String.prototype.match\<close> for a global pattern: \<open>exec\<close> until it fails;
      after an empty match \<open>lastIndex\<close> is advanced by one\<close>
  "matchAll r s lastIndex =
     (case exec_from r s lastIndex of
        None \<Rightarrow> []
      | Some (b, e) \<Rightarrow> (b, e) # matchAll r s (if e = b then Suc e else e))"
  by pat_completeness auto
termination
proof (relation "measure (\<lambda>(r, s, i). Suc (length s) - i)")
  show "wf (measure (\<lambda>(r, s, i). Suc (length s) - i))" by simp
next
  fix r s lastIndex x2 b e
  assume "exec_from r s lastIndex = Some x2" "(b, e) = x2"
  then have "exec_from r s lastIndex = Some (b, e)" by simp
  from exec_from_bounds[OF this]
  show "((r, s, if e = b then Suc e else e), r, s, lastIndex)
          \<in> measure (\<lambda>(r, s, i). Suc (length s) - i)"
    by auto
qed

declare matchAll.simps [simp del]

definition str_match :: "string \<Rightarrow> regexp \<Rightarrow> string list option" where
  \<comment> \<open>\<open>s.match(pattern)\<close> for a global pattern: \<open>null\<close> when nothing matches, otherwise the
      matched substrings from left to right\<close>
  "str_match s r =
     (case matchAll r s 0 of
        [] \<Rightarrow> None
      | ms \<Rightarrow> Some (map (\<lambda>(b, e). substring s b e) ms))"

function split_loop :: "regexp \<Rightarrow> string \<Rightarrow> nat \<Rightarrow> nat \<Rightarrow> string list" where
  \<comment> \<open>the loop of \<open>RegExp.prototype[Symbol.split]\<close>: \<open>p\<close> is the end of the last separator,
      \<open>q\<close> the index where a sticky match is tried next\<close>
  "split_loop r s p q =
     (if q < length s then
        (case rx_match_at r s q of
           None \<Rightarrow> split_loop r s p (Suc q)
         | Some e0 \<Rightarrow>
             (let e = min e0 (length s) in
              if e = p then split_loop r s p (Suc q)
              else substring s p q # split_loop r s e e))
      else [substring s p (length s)])"
  by pat_completeness auto
termination
proof (relation "measures [\<lambda>(r, s, p, q). length s - q, \<lambda>(r, s, p, q). if p = q then 0 else 1]")
  show "wf (measures [\<lambda>(r, s, p, q). length s - q, \<lambda>(r, s, p, q). if p = q then 0 else 1])" by simp
next
  fix r s p q
  assume "q < length s"
  then show "((r, s, p, Suc q), r, s, p, q)
     \<in> measures [\<lambda>(r, s, p, q). length s - q, \<lambda>(r, s, p, q). if p = q then 0 else 1]"
    by auto
next
  fix r s p q e0 e
  assume "q < length s" "e = min e0 (length s)" "e = p"
  then show "((r, s, p, Suc q), r, s, p, q)
     \<in> measures [\<lambda>(r, s, p, q). length s - q, \<lambda>(r, s, p, q). if p = q then 0 else 1]"
    by auto
next
  fix r s p q e0 e
  assume a: "q < length s" "rx_match_at r s q = Some e0" "e = min e0 (length s)" "e \<noteq> p"
  from rx_match_at_bounds[OF a(2)] a(1) have "q \<le> e0" by simp
  with a show "((r, s, e, e), r, s, p, q)
     \<in> measures [\<lambda>(r, s, p, q). length s - q, \<lambda>(r, s, p, q). if p = q then 0 else 1]"
    by auto
qed

declare split_loop.simps [simp del]

definition str_split :: "string \<Rightarrow> regexp \<Rightarrow> string list" where
  \<comment> \<open>\<open>s.split(pattern)\<close> without a limit, for a pattern without capturing groups\<close>
  "str_split s r =
     (if s = [] then (case rx_match_at r s 0 of Some _ \<Rightarrow> [] | None \<Rightarrow> [s])
      else split_loop r s 0 0)"

section \<open>The utilities of the source\<close>

definition escapeRegExp :: "string \<Rightarrow> string" where
  \<comment> \<open>every character of \<open>reRegExpChar\<close> is preceded by a backslash\<close>
  "escapeRegExp text =
     (if text \<noteq> [] \<and> list_ex isRegExpChar text
      then concat (map (\<lambda>c. if isRegExpChar c then [CHR 0x5C, c] else [c]) text)
      else text)"

fun unescape :: "string \<Rightarrow> string" where
  "unescape [] = []"
| "unescape [c] = [c]"
| "unescape (c # d # ds) = (if c = CHR 0x5C then d # unescape ds else c # unescape (d # ds))"

definition literalPattern :: "string \<Rightarrow> rx" where
  \<comment> \<open>what \<open>new RegExp\<close> reads in a pattern source made by \<open>escapeRegExp\<close>: a backslash and
      the character after it stand for that character, any other character for itself\<close>
  "literalPattern src = Chars (unescape src)"

definition createRegExpSearch :: "string \<Rightarrow> bool \<Rightarrow> regexp" where
  "createRegExpSearch search preserveWord =
     (let startDelimiter = (if preserveWord then Alt Bol (Cls isWordBoundaryChar) else Eps);
          endDelimiter = (if preserveWord then Alt Eol (Cls isWordBoundaryChar) else Eps)
      in \<lparr>source = Seq startDelimiter (Seq (literalPattern (escapeRegExp search)) endDelimiter),
          ignoreCase = False\<rparr>)"

definition getSurroundingChars :: "string option \<Rightarrow> string \<times> string" where
  \<comment> \<open>The argument is \<open>textMatch[i]\<close>, \<open>undefined\<close> (here \<open>None\<close>) when \<open>i\<close> is out of range;
      \<open>RegExp.prototype.test\<close> converts it to the string \<open>undefined\<close>, which neither
      starts nor ends with a boundary character.\<close>
  "getSurroundingChars matchText =
     (let probe = (case matchText of None \<Rightarrow> ''undefined'' | Some m \<Rightarrow> m);
          leadingChar = (if probe \<noteq> [] \<and> isWordBoundaryChar (hd probe) then [hd probe] else []);
          endingChar = (if probe \<noteq> [] \<and> isWordBoundaryChar (last probe) then [last probe] else [])
      in (leadingChar, endingChar))"

definition joinArrayWith :: "string list \<Rightarrow> (nat \<Rightarrow> string) \<Rightarrow> string" where
  \<comment> \<open>\<open>arr.reduce((acc, cur, i) => acc + (i === 0 ? "" : onJoin({nextIndex: i})) + cur, "")\<close>\<close>
  "joinArrayWith arr onJoin =
     foldl (\<lambda>acc (i, cur). acc @ (if i = 0 then [] else onJoin i) @ cur) [] (enumerate 0 arr)"

definition item :: "'a list \<Rightarrow> nat \<Rightarrow> 'a option" where
  \<comment> \<open>\<open>xs[i]\<close>: \<open>undefined\<close> out of range\<close>
  "item xs i = (if i < length xs then Some (xs ! i) else None)"

section \<open>Addresses\<close>

fun split_on :: "char \<Rightarrow> string \<Rightarrow> string list" where
  \<comment> \<open>\<open>s.split(d)\<close> for a one-character separator\<close>
  "split_on d [] = [[]]"
| "split_on d (c # cs) =
     (if c = d then [] # split_on d cs
      else (case split_on d cs of x # xs \<Rightarrow> (c # x) # xs | [] \<Rightarrow> [[c]]))"

fun join_with :: "string \<Rightarrow> string list \<Rightarrow> string" where
  \<comment> \<open>\<open>xs.join(sep)\<close>\<close>
  "join_with sep [] = []"
| "join_with sep [x] = x"
| "join_with sep (x # y # ys) = x @ sep @ join_with sep (y # ys)"

definition isDigit :: "char \<Rightarrow> bool" where
  "isDigit c \<longleftrightarrow> 48 \<le> code c \<and> code c \<le> 57"

definition digitsValue :: "string \<Rightarrow> nat" where
  "digitsValue z = foldl (\<lambda>acc c. 10 * acc + (code c - 48)) 0 z"

definition parseInt10 :: "string \<Rightarrow> int option" where
  \<comment> \<open>\<open>parseInt(str, 10)\<close>: leading white space is skipped, then an optional sign, then the
      longest run of decimal digits; \<open>NaN\<close> (here \<open>None\<close>) when that run is empty. The value
      is the exact integer (a Number is exact below \<open>2^53\<close>).\<close>
  "parseInt10 str =
     (let s1 = dropWhile isWhiteSpace str;
          sign = (if s1 \<noteq> [] \<and> hd s1 = CHR ''-'' then - 1 else 1 :: int);
          s2 = (if s1 \<noteq> [] \<and> (hd s1 = CHR ''-'' \<or> hd s1 = CHR ''+'') then tl s1 else s1);
          z = takeWhile isDigit s2
      in if z = [] then None else Some (sign * int (digitsValue z)))"

fun numberToString :: "nat \<Rightarrow> string" where
  \<comment> \<open>the decimal digits of a child index\<close>
  "numberToString n =
     (if n < 10 then [char_of (48 + n)]
      else numberToString (n div 10) @ [char_of (48 + n mod 10)])"

definition encodePath :: "nat list \<Rightarrow> string" where
  \<comment> \<open>\<open>path.join(".")\<close>\<close>
  "encodePath path = join_with ''.'' (map numberToString path)"

definition decodeAddress :: "string \<Rightarrow> int option list" where
  \<comment> \<open>\<open>address.split(".").map((i) => parseInt(i, 10))\<close>\<close>
  "decodeAddress address = map parseInt10 (split_on (CHR ''.'') address)"

section \<open>The tree\<close>

text \<open>
  A node of the host tree, as far as the source reads it: the type tag \<open>nodeType\<close>, the
  string \<open>textContent\<close> and the ordered children \<open>childNodes\<close>. The tree itself belongs to
  the host; \<open>textContent\<close> is the string the host returns for the node. The source reads it
  from the nodes of the text type and from the target of a replacement.
\<close>

datatype node = Node (nodeType: nat) (textContent: string) (childNodes: "node list")

definition childAt :: "node \<Rightarrow> int option \<Rightarrow> node option" where
  \<comment> \<open>\<open>parent.childNodes[childNth]\<close>: \<open>undefined\<close> for \<open>NaN\<close> and for an index out of range\<close>
  "childAt parent childNth =
     (case childNth of
        None \<Rightarrow> None
      | Some i \<Rightarrow> if 0 \<le> i \<and> nat i < length (childNodes parent)
                  then Some (childNodes parent ! nat i) else None)"

fun walkNodes :: "node option \<Rightarrow> int option list \<Rightarrow> node option" where
  "walkNodes parent [] = parent"
| "walkNodes None (childNth # newPath) = None"
| "walkNodes (Some parent) (childNth # newPath) = walkNodes (childAt parent childNth) newPath"

lemma size_nth_child: "i < length cs \<Longrightarrow> size (cs ! i) < Suc (size_list size cs)"
proof (induction cs arbitrary: i)
  case Nil
  then show ?case by simp
next
  case (Cons c cs)
  show ?case
  proof (cases i)
    case 0
    then show ?thesis by simp
  next
    case (Suc j)
    with Cons.prems have "j < length cs" by simp
    from Cons.IH[OF this] Suc show ?thesis by simp
  qed
qed

function replaceWith_at :: "node \<Rightarrow> nat list \<Rightarrow> node list \<Rightarrow> node" where
  \<comment> \<open>the tree after \<open>node.replaceWith(...new)\<close> for the node at \<open>path\<close>: in the child list of
      its parent the node is replaced by the nodes \<open>new\<close>; a node without a parent stays\<close>
  "replaceWith_at n [] new = n"
| "replaceWith_at (Node ty tx cs) [i] new =
     (if i < length cs then Node ty tx (take i cs @ new @ drop (Suc i) cs) else Node ty tx cs)"
| "replaceWith_at (Node ty tx cs) (i # j # p) new =
     (if i < length cs then Node ty tx (cs[i := replaceWith_at (cs ! i) (j # p) new])
      else Node ty tx cs)"
  by pat_completeness auto
termination
  by (relation "measure (\<lambda>(n, p, new). size n)") (auto simp: size_nth_child)

section \<open>The facade\<close>

record config =
  textNodeType :: nat
  createTextNode :: "string \<Rightarrow> node"

record aracari =
  root :: "node option"
  mapping :: "(string \<times> string) list"
  config :: config

record replaceOptions =
  opt_at :: "string option"
  opt_preserveWord :: "bool option"
  opt_replacementIndex :: "nat option"
  opt_caseSensitive :: "bool option"

datatype error = NotFound string | TypeError

text \<open>
  \<open>getTextNodeMapping\<close> maps the callback of \<open>flatMap\<close> over the children of \<open>parent\<close>;
  \<open>flatMapChildren cfg path i ns\<close> is that loop at the child index \<open>i\<close>, with the children
  \<open>ns\<close> still to visit.
\<close>

fun getTextNodeMapping :: "config \<Rightarrow> node \<Rightarrow> nat list \<Rightarrow> (string \<times> string) list"
  and flatMapChildren :: "config \<Rightarrow> nat list \<Rightarrow> nat \<Rightarrow> node list \<Rightarrow> (string \<times> string) list" where
  "getTextNodeMapping cfg (Node ty tx cs) path = flatMapChildren cfg path 0 cs"
| "flatMapChildren cfg path i [] = []"
| "flatMapChildren cfg path i (n # ns) =
     (if nodeType n = textNodeType cfg then [(textContent n, encodePath (path @ [i]))]
      else if childNodes n \<noteq> [] then getTextNodeMapping cfg n (path @ [i])
      else [])
     @ flatMapChildren cfg path (Suc i) ns"

definition construct :: "(string \<times> string) list + node \<Rightarrow> nat option \<Rightarrow> (string \<Rightarrow> node) option \<Rightarrow> aracari" where
  \<comment> \<open>the constructor, from a mapping (\<open>Inl\<close>) or from a root (\<open>Inr\<close>);
      \<open>options.textNodeType || Node.TEXT_NODE\<close> replaces a missing or zero type by 3, and the
      default factory \<open>document.createTextNode\<close> makes a childless node of type 3\<close>
  "construct r optTextNodeType optCreateTextNode =
     (let cfg = \<lparr>textNodeType = (case optTextNodeType of None \<Rightarrow> 3 | Some t \<Rightarrow> if t = 0 then 3 else t),
                 createTextNode = (case optCreateTextNode of None \<Rightarrow> (\<lambda>t. Node 3 t []) | Some f \<Rightarrow> f)\<rparr>
      in case r of
           Inl m \<Rightarrow> \<lparr>root = None, mapping = m, config = cfg\<rparr>
         | Inr n \<Rightarrow> \<lparr>root = Some n, mapping = getTextNodeMapping cfg n [], config = cfg\<rparr>)"

definition getText :: "aracari \<Rightarrow> string" where
  "getText a = concat (map fst (mapping a))"

definition lookupPattern :: "string \<Rightarrow> bool \<Rightarrow> bool \<Rightarrow> regexp" where
  \<comment> \<open>the pattern of \<open>getMappingsForText\<close>. Its flags are \<open>`${caseSensitive ? "i" : ""}g`\<close>: it
      ignores case exactly when \<open>caseSensitive\<close> is true.\<close>
  "lookupPattern text caseSensitive preserveWord =
     (let delimiter = (if preserveWord then WordB else Eps)
      in \<lparr>source = Seq delimiter (Seq (literalPattern (escapeRegExp text)) delimiter),
          ignoreCase = caseSensitive\<rparr>)"

definition getMappingsForText :: "aracari \<Rightarrow> string \<Rightarrow> bool \<Rightarrow> bool \<Rightarrow> (string \<times> string) list" where
  "getMappingsForText a text caseSensitive preserveWord =
     (let pattern = lookupPattern text caseSensitive preserveWord
      in filter (\<lambda>(text, nodeAddress). str_match text pattern \<noteq> None) (mapping a))"

definition getAddressForText :: "aracari \<Rightarrow> string \<Rightarrow> bool \<Rightarrow> bool \<Rightarrow> string option" where
  "getAddressForText a text caseSensitive preserveWord =
     (case getMappingsForText a text caseSensitive preserveWord of
        [] \<Rightarrow> None
      | matched # _ \<Rightarrow> Some (snd matched))"

definition arrayIsTruthy :: "'a list \<Rightarrow> bool" where
  \<comment> \<open>an array, also an empty one, is an object and counts as true in a condition\<close>
  "arrayIsTruthy xs = True"

definition getAddressesForText :: "aracari \<Rightarrow> string \<Rightarrow> bool \<Rightarrow> bool \<Rightarrow> string list option" where
  "getAddressesForText a text caseSensitive preserveWord =
     (let matchedNode = getMappingsForText a text caseSensitive preserveWord
      in if arrayIsTruthy matchedNode then Some (map snd matchedNode) else None)"

definition getMappingFromAddress :: "aracari \<Rightarrow> string \<Rightarrow> (string \<times> string) option" where
  "getMappingFromAddress a address = find (\<lambda>(text, nodeAddress). nodeAddress = address) (mapping a)"

definition getTextByAddress :: "aracari \<Rightarrow> string \<Rightarrow> string option" where
  "getTextByAddress a address =
     (case getMappingFromAddress a address of None \<Rightarrow> None | Some entry \<Rightarrow> Some (fst entry))"

definition isInSingleNode :: "aracari \<Rightarrow> string \<Rightarrow> bool \<Rightarrow> bool" where
  \<comment> \<open>\<open>!!address\<close>: false for \<open>null\<close> and for the empty string\<close>
  "isInSingleNode a text caseSensitive =
     (case getAddressForText a text caseSensitive False of None \<Rightarrow> False | Some address \<Rightarrow> address \<noteq> [])"

definition getNodeByAddress :: "aracari \<Rightarrow> string \<Rightarrow> node option" where
  "getNodeByAddress a address = walkNodes (root a) (decodeAddress address)"

definition getTextNode :: "aracari \<Rightarrow> string \<Rightarrow> bool \<Rightarrow> bool \<Rightarrow> node option" where
  "getTextNode a text caseSensitive preserveWord =
     (case getAddressForText a text caseSensitive preserveWord of
        None \<Rightarrow> None
      | Some address \<Rightarrow> if address = [] then None else getNodeByAddress a address)"

definition maybeCreateTextNode :: "config \<Rightarrow> string \<Rightarrow> node option" where
  "maybeCreateTextNode cfg text = (if text = [] then None else Some (createTextNode cfg text))"

definition targetAddress :: "aracari \<Rightarrow> string \<Rightarrow> replaceOptions \<Rightarrow> string option" where
  \<comment> \<open>the address of the node that \<open>replaceText\<close> resolves: \<open>options.at\<close> when it is given and
      not empty, otherwise the one \<open>getTextNode\<close> looks up\<close>
  "targetAddress a text options =
     (let caseSensitive = (case opt_caseSensitive options of None \<Rightarrow> True | Some c \<Rightarrow> c);
          preserveWord = (case opt_preserveWord options of None \<Rightarrow> False | Some w \<Rightarrow> w);
          looked = (case getAddressForText a text caseSensitive preserveWord of
                      None \<Rightarrow> None
                    | Some address \<Rightarrow> if address = [] then None else Some address)
      in case opt_at options of
           None \<Rightarrow> looked
         | Some address \<Rightarrow> if address \<noteq> [] then Some address else looked)"

definition indexPath :: "int option list \<Rightarrow> nat list" where
  "indexPath path = map (\<lambda>x. case x of None \<Rightarrow> 0 | Some i \<Rightarrow> nat i) path"

definition targetPath :: "aracari \<Rightarrow> string \<Rightarrow> replaceOptions \<Rightarrow> nat list" where
  \<comment> \<open>the child indices from the root to the node that \<open>replaceText\<close> resolves; empty when
      there is no address\<close>
  "targetPath a text options =
     (case targetAddress a text options of
        None \<Rightarrow> []
      | Some address \<Rightarrow> indexPath (decodeAddress address))"

definition notFoundMessage :: "string \<Rightarrow> string" where
  \<comment> \<open>\<open>`Text "${text}" not found in node in ${node?.textContext ?? "unknown"}`\<close>; no node has a
      property \<open>textContext\<close>\<close>
  "notFoundMessage text = ''Text '' @ [CHR 0x22] @ text @ [CHR 0x22] @ '' not found in node in unknown''"

definition replacementParts :: "string \<Rightarrow> string \<Rightarrow> regexp \<Rightarrow> string list \<Rightarrow> nat \<Rightarrow> string \<times> string" where
  \<comment> \<open>the two strings that \<open>replaceText\<close> hands to \<open>maybeCreateTextNode\<close>:
      \<open>preText + preChar\<close> and \<open>postChar + postText\<close>\<close>
  "replacementParts text content pattern textMatch replacementIndex =
     (let contents = str_split content pattern;
          (preChar, postChar) = getSurroundingChars (item textMatch replacementIndex);
          preText = joinArrayWith (take (replacementIndex + 1) contents) (\<lambda>nextIndex.
                      let (preChar, postChar) = getSurroundingChars (item textMatch (nextIndex - 1))
                      in preChar @ text @ postChar);
          postText = joinArrayWith (drop (replacementIndex + 1) contents) (\<lambda>nextIndex.
                      let (preChar, postChar) = getSurroundingChars (item textMatch nextIndex)
                      in preChar @ text @ postChar)
      in (preText @ preChar, postChar @ postText))"

definition targetNode :: "aracari \<Rightarrow> string \<Rightarrow> replaceOptions \<Rightarrow> node option" where
  \<comment> \<open>\<open>if (at) { node = this.getNodeByAddress(at) } else { node = this.getTextNode(text,
      caseSensitive, preserveWord) }\<close>; the parameter \<open>preserveWord\<close> of \<open>getTextNode\<close>
      defaults to false when the option is \<open>undefined\<close>\<close>
  "targetNode a text options =
     (let caseSensitive = (case opt_caseSensitive options of None \<Rightarrow> True | Some c \<Rightarrow> c);
          preserveWord = (case opt_preserveWord options of None \<Rightarrow> False | Some w \<Rightarrow> w)
      in case opt_at options of
           None \<Rightarrow> getTextNode a text caseSensitive preserveWord
         | Some address \<Rightarrow>
             if address \<noteq> [] then getNodeByAddress a address
             else getTextNode a text caseSensitive preserveWord)"

definition replaceText :: "string \<Rightarrow> node list \<Rightarrow> replaceOptions \<Rightarrow> aracari \<Rightarrow> (error + unit) \<times> aracari" where
  \<comment> \<open>The result is the outcome (\<open>Inl\<close> the error thrown) and the facade with the tree as the
      call leaves it. \<open>node?.textContent.match(pattern)\<close> is \<open>undefined\<close> without a node and
      \<open>null\<close> without a match; both throw. The pattern is built with \<open>preserveWord ?? true\<close>.\<close>
  "replaceText text nodes options a =
     (let replacementIndex = (case opt_replacementIndex options of None \<Rightarrow> 0 | Some k \<Rightarrow> k);
          node = targetNode a text options;
          pattern = createRegExpSearch text (case opt_preserveWord options of None \<Rightarrow> True | Some w \<Rightarrow> w)
      in case node of
           None \<Rightarrow> (Inl (NotFound (notFoundMessage text)), a)
         | Some n \<Rightarrow>
             (case str_match (textContent n) pattern of
                None \<Rightarrow> (Inl (NotFound (notFoundMessage text)), a)
              | Some textMatch \<Rightarrow>
                  (let (pre, post) = replacementParts text (textContent n) pattern textMatch replacementIndex;
                       replacementNodes = List.map_filter id
                         ([maybeCreateTextNode (config a) pre] @ map Some nodes
                            @ [maybeCreateTextNode (config a) post]);
                       path = targetPath a text options
                   in (Inr (),
                       a\<lparr>root := map_option (\<lambda>r. replaceWith_at r path replacementNodes) (root a)\<rparr>))))"

definition remap :: "(string \<times> string) list option \<Rightarrow> aracari \<Rightarrow> error + aracari" where
  \<comment> \<open>\<open>this.mapping = mapping ?? this.getTextNodeMapping(this.root!)\<close>: without a mapping and
      without a root the read of \<open>childNodes\<close> throws\<close>
  "remap m a =
     (case m of
        Some m' \<Rightarrow> Inr (a\<lparr>mapping := m'\<rparr>)
      | None \<Rightarrow>
          (case root a of
             None \<Rightarrow> Inl TypeError
           | Some r \<Rightarrow> Inr (a\<lparr>mapping := getTextNodeMapping (config a) r []\<rparr>)))"

section \<open>The calls of the tests\<close>

text \<open>
  The tests of the repository build a facade on a \<open>div\<close> that holds one paragraph, replace
  a text, rebuild the mapping and read the text back.
\<close>

definition noOptions :: replaceOptions where
  "noOptions = \<lparr>opt_at = None, opt_preserveWord = None, opt_replacementIndex = None, opt_caseSensitive = None\<rparr>"

definition oneLeaf :: "string \<Rightarrow> aracari" where
  \<comment> \<open>the facade of the tests: a \<open>div\<close> holding one \<open>p\<close> holding one text node\<close>
  "oneLeaf t = construct (Inr (Node 1 [] [Node 1 [] [Node 3 t []]])) None None"

definition replaceAndRead :: "string \<Rightarrow> node list \<Rightarrow> replaceOptions \<Rightarrow> aracari \<Rightarrow> string option" where
  \<comment> \<open>\<open>aracari.replaceText(text, nodes, options).remap(); aracari.getText()\<close>, as the tests
      of the repository read the result of a replacement; \<open>None\<close> when a call throws\<close>
  "replaceAndRead txt nodes options a =
     (case replaceText txt nodes options a of
        (Inl e, a') \<Rightarrow> None
      | (Inr u, a') \<Rightarrow> (case remap None a' of Inl e \<Rightarrow> None | Inr a'' \<Rightarrow> Some (getText a'')))"

definition birds :: aracari where
  "birds = construct (Inl [(''toucans'', ''0.21.0''), (''saffron toucanet'', ''0.23.0'')]) None None"

section \<open>When a pattern matches\<close>

lemma exec_from_None_iff:
  "exec_from r s i = None \<longleftrightarrow> (\<forall>j. i \<le> j \<and> j \<le> length s \<longrightarrow> rx_match_at r s j = None)"
proof (induction r s i rule: exec_from.induct)
  case (1 r s lastIndex)
  show ?case
  proof (cases "length s < lastIndex")
    case True
    then show ?thesis by (auto simp: exec_from.simps[of r s lastIndex])
  next
    case False
    show ?thesis
    proof (cases "rx_match_at r s lastIndex")
      case None
      have "(\<forall>j. lastIndex \<le> j \<and> j \<le> length s \<longrightarrow> rx_match_at r s j = None)
            \<longleftrightarrow> (\<forall>j. Suc lastIndex \<le> j \<and> j \<le> length s \<longrightarrow> rx_match_at r s j = None)"
        using None by (metis Suc_leI le_neq_implies_less Suc_leD)
      with "1.IH"[OF False None] None False show ?thesis
        by (simp add: exec_from.simps[of r s lastIndex])
    next
      case (Some e)
      with False show ?thesis by (auto simp: exec_from.simps[of r s lastIndex])
    qed
  qed
qed

lemma matchAll_Nil_iff: "matchAll r s i = [] \<longleftrightarrow> exec_from r s i = None"
  by (simp add: matchAll.simps[of r s i] split: option.splits)

lemma str_match_None_iff:
  "str_match s r = None \<longleftrightarrow> (\<forall>j\<le>length s. rx_match_at r s j = None)"
proof -
  have "str_match s r = None \<longleftrightarrow> matchAll r s 0 = []"
    by (auto simp: str_match_def split: list.splits)
  then show ?thesis by (simp add: matchAll_Nil_iff exec_from_None_iff)
qed

section \<open>Looking up addresses\<close>

text \<open>
  Claim C10. \<open>getAddressesForText\<close> never returns the absent value: it returns the addresses
  of all entries whose text the lookup pattern matches somewhere, in the order of the
  mapping; when no entry matches, the list is empty, where \<open>getAddressForText\<close> returns
  \<open>null\<close>.
\<close>

theorem getAddressesForText_never_absent:
  "getAddressesForText a text cs pw
     = Some (map snd (filter (\<lambda>entry. \<exists>i\<le>length (fst entry).
                 rx_match_at (lookupPattern text cs pw) (fst entry) i \<noteq> None) (mapping a)))
   \<and> getAddressesForText a text cs pw \<noteq> None
   \<and> ((\<forall>entry\<in>set (mapping a). \<forall>i\<le>length (fst entry).
          rx_match_at (lookupPattern text cs pw) (fst entry) i = None)
        \<longrightarrow> getAddressesForText a text cs pw = Some [] \<and> getAddressForText a text cs pw = None)"
proof -
  have m: "getMappingsForText a text cs pw
     = filter (\<lambda>entry. \<exists>i\<le>length (fst entry).
                 rx_match_at (lookupPattern text cs pw) (fst entry) i \<noteq> None) (mapping a)"
    unfolding getMappingsForText_def Let_def
    by (rule filter_cong) (auto simp: str_match_None_iff)
  have 1: "getAddressesForText a text cs pw = Some (map snd (getMappingsForText a text cs pw))"
    by (simp add: getAddressesForText_def arrayIsTruthy_def)
  have 2: "(\<forall>entry\<in>set (mapping a). \<forall>i\<le>length (fst entry).
          rx_match_at (lookupPattern text cs pw) (fst entry) i = None)
        \<Longrightarrow> getMappingsForText a text cs pw = []"
    unfolding m by (auto simp: filter_empty_conv)
  show ?thesis using 1 2 by (auto simp: m getAddressForText_def)
qed

theorem getAddressesForText_never_absent_witness:
  "getAddressesForText birds ''parrot'' True False = Some []
   \<and> getAddressForText birds ''parrot'' True False = None
   \<and> getAddressesForText birds ''toucan'' True False = Some [''0.21.0'', ''0.23.0'']"
proof -
  have e1: "str_match ''toucans'' (lookupPattern ''parrot'' True False) = None" by code_simp
  have e2: "str_match ''saffron toucanet'' (lookupPattern ''parrot'' True False) = None" by code_simp
  have mp: "mapping birds = [(''toucans'', ''0.21.0''), (''saffron toucanet'', ''0.23.0'')]"
    by (simp add: birds_def construct_def)
  have h: "\<forall>entry\<in>set (mapping birds). \<forall>i\<le>length (fst entry).
      rx_match_at (lookupPattern ''parrot'' True False) (fst entry) i = None"
    using e1 e2 unfolding mp str_match_None_iff by simp
  have t: "getAddressesForText birds ''toucan'' True False = Some [''0.21.0'', ''0.23.0'']"
    by code_simp
  from getAddressesForText_never_absent[of birds "''parrot''" True False] h t
  show ?thesis by blast
qed

section \<open>The stored mapping\<close>

text \<open>
  Claim C9. \<open>replaceText\<close> leaves the stored mapping as it was, whatever its outcome: the
  mapping, the value of \<open>getText\<close> and the configuration after the call are those before
  it. The mapping changes with \<open>remap\<close>, which stores the mapping it is given or the one
  rebuilt from the root: after replacing \<open>all\<close> by \<open>todo\<close> in the leaf
  \<open>all the foo people are all bar\<close> the facade still reads the old text, and reads the
  new one once \<open>remap\<close> has run.
\<close>

theorem replaceText_keeps_mapping:
  "mapping (snd (replaceText text nodes options a)) = mapping a
   \<and> getText (snd (replaceText text nodes options a)) = getText a
   \<and> config (snd (replaceText text nodes options a)) = config a
   \<and> remap (Some m) a = Inr (a\<lparr>mapping := m\<rparr>)
   \<and> remap None (a\<lparr>root := Some r\<rparr>)
       = Inr (a\<lparr>root := Some r, mapping := getTextNodeMapping (config a) r []\<rparr>)
   \<and> fst (replaceText ''all'' [Node 3 ''todo'' []] noOptions (oneLeaf ''all the foo people are all bar''))
       = Inr ()
   \<and> getText (snd (replaceText ''all'' [Node 3 ''todo'' []] noOptions
                      (oneLeaf ''all the foo people are all bar'')))
       = ''all the foo people are all bar''
   \<and> replaceAndRead ''all'' [Node 3 ''todo'' []] noOptions (oneLeaf ''all the foo people are all bar'')
       = Some ''todo the foo people are all bar''"
proof -
  have 1: "mapping (snd (replaceText text nodes options a)) = mapping a
     \<and> getText (snd (replaceText text nodes options a)) = getText a
     \<and> config (snd (replaceText text nodes options a)) = config a
     \<and> remap (Some m) a = Inr (a\<lparr>mapping := m\<rparr>)
     \<and> remap None (a\<lparr>root := Some r\<rparr>)
         = Inr (a\<lparr>root := Some r, mapping := getTextNodeMapping (config a) r []\<rparr>)"
    by (simp add: replaceText_def getText_def remap_def Let_def split: option.splits prod.splits)
  have 2: "fst (replaceText ''all'' [Node 3 ''todo'' []] noOptions (oneLeaf ''all the foo people are all bar''))
       = Inr ()"
    by code_simp
  have 3: "getText (snd (replaceText ''all'' [Node 3 ''todo'' []] noOptions
                      (oneLeaf ''all the foo people are all bar'')))
       = ''all the foo people are all bar''"
    by code_simp
  have 4: "replaceAndRead ''all'' [Node 3 ''todo'' []] noOptions (oneLeaf ''all the foo people are all bar'')
       = Some ''todo the foo people are all bar''"
    by code_simp
  from 1 2 3 4 show ?thesis by blast
qed

section \<open>Letter case in the lookups\<close>

definition capital :: aracari where
  "capital = construct (Inl [(''Toucans'', ''0'')]) None None"

text \<open>
  Claim C3. The lookups are to compare letter case when \<open>caseSensitive\<close> is true and to
  ignore it otherwise. The pattern of \<open>getMappingsForText\<close> carries the flag \<open>i\<close> exactly when
  \<open>caseSensitive\<close> is true: on the mapping with the one entry \<open>Toucans\<close> the query \<open>toucans\<close> is
  found with \<open>caseSensitive = true\<close> and not found with \<open>caseSensitive = false\<close>.
\<close>

theorem lookup_case_flag_inverted:
  "ignoreCase (lookupPattern text caseSensitive preserveWord) = caseSensitive
   \<and> getMappingsForText capital ''toucans'' True False = [(''Toucans'', ''0'')]
   \<and> getAddressForText capital ''toucans'' True False = Some ''0''
   \<and> getAddressesForText capital ''toucans'' True False = Some [''0'']
   \<and> getMappingsForText capital ''toucans'' False False = []
   \<and> getAddressForText capital ''toucans'' False False = None
   \<and> getAddressesForText capital ''toucans'' False False = Some []"
proof -
  have 1: "ignoreCase (lookupPattern text caseSensitive preserveWord) = caseSensitive"
    by (simp add: lookupPattern_def Let_def)
  have 2: "getMappingsForText capital ''toucans'' True False = [(''Toucans'', ''0'')]"
    by code_simp
  have 3: "getMappingsForText capital ''toucans'' False False = []"
    by code_simp
  show ?thesis using 1 2 3
    by (simp add: getAddressForText_def getAddressesForText_def arrayIsTruthy_def)
qed

section \<open>\<open>isInSingleNode\<close>\<close>

text \<open>
  Claim C7 says that \<open>isInSingleNode\<close> is true only when exactly one entry matches. The
  query \<open>toucan\<close> matches two entries of \<open>birds\<close> and the answer is true.
\<close>

theorem isInSingleNode_counterexample:
  "isInSingleNode birds ''toucan'' True
   \<and> length (getMappingsForText birds ''toucan'' True False) = 2"
proof -
  have "getMappingsForText birds ''toucan'' True False
          = [(''toucans'', ''0.21.0''), (''saffron toucanet'', ''0.23.0'')]"
    by code_simp
  then show ?thesis by (simp add: isInSingleNode_def getAddressForText_def)
qed

text \<open>
  Claim C7, amended. \<open>isInSingleNode\<close> is true if and only if the lookup matches at least
  one entry and the address of the first matching entry is not empty; for a mapping
  without empty addresses, if and only if the lookup pattern matches in some entry.
\<close>

theorem isInSingleNode_iff_first_match:
  "(isInSingleNode a text cs
      \<longleftrightarrow> getMappingsForText a text cs False \<noteq> []
          \<and> snd (hd (getMappingsForText a text cs False)) \<noteq> [])
   \<and> ((\<forall>entry\<in>set (mapping a). snd entry \<noteq> []) \<longrightarrow>
        (isInSingleNode a text cs
           \<longleftrightarrow> (\<exists>entry\<in>set (mapping a). \<exists>i\<le>length (fst entry).
                  rx_match_at (lookupPattern text cs False) (fst entry) i \<noteq> None)))"
proof -
  let ?ms = "getMappingsForText a text cs False"
  have 1: "isInSingleNode a text cs \<longleftrightarrow> ?ms \<noteq> [] \<and> snd (hd ?ms) \<noteq> []"
    by (auto simp: isInSingleNode_def getAddressForText_def split: list.splits)
  have m: "?ms = filter (\<lambda>entry. \<exists>i\<le>length (fst entry).
                 rx_match_at (lookupPattern text cs False) (fst entry) i \<noteq> None) (mapping a)"
    unfolding getMappingsForText_def Let_def
    by (rule filter_cong) (auto simp: str_match_None_iff)
  have 2: "isInSingleNode a text cs
           \<longleftrightarrow> (\<exists>entry\<in>set (mapping a). \<exists>i\<le>length (fst entry).
                  rx_match_at (lookupPattern text cs False) (fst entry) i \<noteq> None)"
    if ne: "\<forall>entry\<in>set (mapping a). snd entry \<noteq> []"
  proof -
    have "?ms \<noteq> [] \<Longrightarrow> hd ?ms \<in> set (mapping a)"
      by (metis filter_is_subset getMappingsForText_def hd_in_set subsetD)
    with ne have "?ms \<noteq> [] \<Longrightarrow> snd (hd ?ms) \<noteq> []" by blast
    with 1 have "isInSingleNode a text cs \<longleftrightarrow> ?ms \<noteq> []" by blast
    also have "\<dots> \<longleftrightarrow> (\<exists>entry\<in>set (mapping a). \<exists>i\<le>length (fst entry).
                  rx_match_at (lookupPattern text cs False) (fst entry) i \<noteq> None)"
      by (subst m) (simp only: filter_empty_conv, blast)
    finally show ?thesis .
  qed
  from 1 2 show ?thesis by blast
qed

theorem isInSingleNode_iff_first_match_witness:
  "isInSingleNode birds ''toucan'' True
   \<and> \<not> isInSingleNode birds ''An aracari'' True"
proof -
  have mp: "mapping birds = [(''toucans'', ''0.21.0''), (''saffron toucanet'', ''0.23.0'')]"
    by (simp add: birds_def construct_def)
  have ne: "\<forall>entry\<in>set (mapping birds). snd entry \<noteq> []" unfolding mp by simp
  have 1: "getMappingsForText birds ''toucan'' True False
          = [(''toucans'', ''0.21.0''), (''saffron toucanet'', ''0.23.0'')]"
    by code_simp
  have 2: "getMappingsForText birds ''An aracari'' True False = []"
    by code_simp
  from isInSingleNode_iff_first_match[of birds "''toucan''" True] 1
  have a: "isInSingleNode birds ''toucan'' True" by simp
  from isInSingleNode_iff_first_match[of birds "''An aracari''" True] 2
  have b: "\<not> isInSingleNode birds ''An aracari'' True" by simp
  from a b show ?thesis by simp
qed

section \<open>The failure of \<open>replaceText\<close>\<close>

text \<open>
  Claim C2. \<open>replaceText\<close> fails exactly when there is no resolved target node in whose
  text the boundary-aware pattern matches at some index; the error is then NotFound, and
  the facade, with its tree and its mapping, is the one before the call.
\<close>

theorem replaceText_NotFound_iff:
  "((\<exists>e. fst (replaceText text nodes options a) = Inl e)
      \<longleftrightarrow> \<not> (\<exists>n. targetNode a text options = Some n
               \<and> (\<exists>i\<le>length (textContent n).
                     rx_match_at (createRegExpSearch text
                        (case opt_preserveWord options of None \<Rightarrow> True | Some w \<Rightarrow> w))
                       (textContent n) i \<noteq> None)))
   \<and> (\<forall>e. fst (replaceText text nodes options a) = Inl e
          \<longrightarrow> e = NotFound (notFoundMessage text) \<and> snd (replaceText text nodes options a) = a)"
proof (cases "targetNode a text options")
  case None
  then show ?thesis by (simp add: replaceText_def Let_def)
next
  case (Some n)
  let ?p = "createRegExpSearch text (case opt_preserveWord options of None \<Rightarrow> True | Some w \<Rightarrow> w)"
  show ?thesis
  proof (cases "str_match (textContent n) ?p")
    case None
    with Some have "replaceText text nodes options a = (Inl (NotFound (notFoundMessage text)), a)"
      by (simp add: replaceText_def Let_def)
    moreover from None have "\<forall>i\<le>length (textContent n). rx_match_at ?p (textContent n) i = None"
      by (simp add: str_match_None_iff)
    ultimately show ?thesis using Some by simp
  next
    case (Some tm)
    with \<open>targetNode a text options = Some n\<close>
    have "fst (replaceText text nodes options a) = Inr ()"
      by (simp add: replaceText_def Let_def split: prod.splits)
    moreover from Some have "\<exists>i\<le>length (textContent n). rx_match_at ?p (textContent n) i \<noteq> None"
      using str_match_None_iff[of "textContent n" ?p] by auto
    ultimately show ?thesis using \<open>targetNode a text options = Some n\<close> by simp
  qed
qed

theorem replaceText_NotFound_iff_witness:
  "fst (replaceText ''oo'' [Node 3 ''x'' []] noOptions (oneLeaf ''foo-bar''))
      = Inl (NotFound (notFoundMessage ''oo''))
   \<and> snd (replaceText ''oo'' [Node 3 ''x'' []] noOptions (oneLeaf ''foo-bar'')) = oneLeaf ''foo-bar''
   \<and> targetNode (oneLeaf ''foo-bar'') ''oo'' noOptions = Some (Node 3 ''foo-bar'' [])"
proof -
  have t: "targetNode (oneLeaf ''foo-bar'') ''oo'' noOptions = Some (Node 3 ''foo-bar'' [])"
    by code_simp
  have m: "str_match ''foo-bar'' (createRegExpSearch ''oo'' True) = None"
    by code_simp
  have "\<not> (\<exists>n. targetNode (oneLeaf ''foo-bar'') ''oo'' noOptions = Some n
               \<and> (\<exists>i\<le>length (textContent n).
                     rx_match_at (createRegExpSearch ''oo''
                        (case opt_preserveWord noOptions of None \<Rightarrow> True | Some w \<Rightarrow> w))
                       (textContent n) i \<noteq> None))"
    using t m by (simp add: str_match_None_iff noOptions_def)
  with replaceText_NotFound_iff[of "''oo''" "[Node 3 ''x'' []]" noOptions "oneLeaf ''foo-bar''"] t
  show ?thesis by auto
qed

section \<open>Resolving an address\<close>

declare numberToString.simps [simp del]

lemma numberToString_digits: "c \<in> set (numberToString n) \<Longrightarrow> isDigit c"
proof (induction n rule: numberToString.induct)
  case (1 n)
  show ?case
  proof (cases "n < 10")
    case True
    with "1.prems" show ?thesis
      by (simp add: numberToString.simps[of n] isDigit_def code_def)
  next
    case False
    have "n mod 10 < 10" by simp
    then have "isDigit (char_of (48 + n mod 10))"
      by (simp add: isDigit_def code_def)
    with False "1.prems" "1.IH" show ?thesis
      by (auto simp: numberToString.simps[of n])
  qed
qed

lemma numberToString_nonempty: "numberToString n \<noteq> []"
  by (simp add: numberToString.simps[of n])

lemma digitsValue_snoc: "digitsValue (xs @ [c]) = 10 * digitsValue xs + (code c - 48)"
  by (simp add: digitsValue_def)

lemma digitsValue_numberToString: "digitsValue (numberToString n) = n"
proof (induction n rule: numberToString.induct)
  case (1 n)
  show ?case
  proof (cases "n < 10")
    case True
    then show ?thesis
      by (simp add: numberToString.simps[of n] digitsValue_def code_def)
  next
    case False
    have "n mod 10 < 10" by simp
    then have "code (char_of (48 + n mod 10)) - 48 = n mod 10"
      by (simp add: code_def)
    with False "1.IH" show ?thesis
      by (simp add: numberToString.simps[of n] digitsValue_snoc)
  qed
qed

lemma digit_not_space: "isDigit c \<Longrightarrow> \<not> isWhiteSpace c"
  by (auto simp: isDigit_def isWhiteSpace_def)

lemma digit_not_sign: "isDigit c \<Longrightarrow> c \<noteq> CHR ''-'' \<and> c \<noteq> CHR ''+'' \<and> c \<noteq> CHR ''.''"
  by (auto simp: isDigit_def code_def)

lemma parseInt10_numberToString: "parseInt10 (numberToString n) = Some (int n)"
proof -
  let ?s = "numberToString n"
  have ne: "?s \<noteq> []" by (rule numberToString_nonempty)
  have dg: "\<forall>c\<in>set ?s. isDigit c" by (simp add: numberToString_digits)
  from ne dg have hd: "isDigit (hd ?s)" by (cases ?s) auto
  from ne hd have 1: "dropWhile isWhiteSpace ?s = ?s"
    by (cases ?s) (auto simp: digit_not_space)
  from dg have 2: "takeWhile isDigit ?s = ?s" by (simp add: takeWhile_eq_all_conv)
  have "parseInt10 ?s
          = (if takeWhile isDigit ?s = [] then None
             else Some (int (digitsValue (takeWhile isDigit ?s))))"
    using ne digit_not_sign[OF hd] by (simp add: parseInt10_def Let_def 1)
  also have "\<dots> = Some (int n)"
    unfolding 2 using ne by (simp add: digitsValue_numberToString)
  finally show ?thesis .
qed

lemma split_on_no_sep: "d \<notin> set x \<Longrightarrow> split_on d x = [x]"
  by (induction x) auto

lemma split_on_append: "d \<notin> set x \<Longrightarrow> split_on d (x @ d # rest) = x # split_on d rest"
  by (induction x) auto

lemma split_on_join:
  "ps \<noteq> [] \<Longrightarrow> \<forall>x\<in>set ps. d \<notin> set x \<Longrightarrow> split_on d (join_with [d] ps) = ps"
proof (induction ps rule: induct_list012)
  case 1
  then show ?case by simp
next
  case (2 x)
  then show ?case by (simp add: split_on_no_sep)
next
  case (3 x y ys)
  then show ?case by (simp add: split_on_append)
qed

lemma decode_encode:
  assumes "p \<noteq> []"
  shows "decodeAddress (encodePath p) = map (\<lambda>i. Some (int i)) p"
proof -
  have "\<forall>x\<in>set (map numberToString p). CHR ''.'' \<notin> set x"
    using numberToString_digits digit_not_sign by auto
  with assms have "split_on (CHR ''.'') (join_with ''.'' (map numberToString p)) = map numberToString p"
    by (intro split_on_join) auto
  then show ?thesis
    by (simp add: decodeAddress_def encodePath_def parseInt10_numberToString comp_def)
qed

text \<open>
  \<open>reaches r p m\<close>: following the child indices \<open>p\<close> from \<open>r\<close>, each within the range of
  the children at its depth, leads to \<open>m\<close>.
\<close>

inductive reaches :: "node \<Rightarrow> nat list \<Rightarrow> node \<Rightarrow> bool" where
  reaches_here: "reaches n [] n"
| reaches_child: "i < length (childNodes n) \<Longrightarrow> reaches (childNodes n ! i) p m \<Longrightarrow> reaches n (i # p) m"

lemma walkNodes_None: "walkNodes None path = None"
  by (cases path) auto

lemma walkNodes_reaches:
  "walkNodes (Some r) (map (\<lambda>i. Some (int i)) p) = Some m \<longleftrightarrow> reaches r p m"
proof (induction p arbitrary: r)
  case Nil
  show ?case by (auto intro: reaches.intros elim: reaches.cases)
next
  case (Cons i p)
  show ?case
  proof (cases "i < length (childNodes r)")
    case True
    then have "walkNodes (Some r) (map (\<lambda>i. Some (int i)) (i # p))
               = walkNodes (Some (childNodes r ! i)) (map (\<lambda>i. Some (int i)) p)"
      by (simp add: childAt_def)
    also have "\<dots> = Some m \<longleftrightarrow> reaches (childNodes r ! i) p m" by (rule Cons.IH)
    also have "\<dots> \<longleftrightarrow> reaches r (i # p) m"
      using True by (auto intro: reaches.intros elim: reaches.cases)
    finally show ?thesis .
  next
    case False
    then have "walkNodes (Some r) (map (\<lambda>i. Some (int i)) (i # p)) = None"
      by (simp add: childAt_def walkNodes_None)
    moreover from False have "\<not> reaches r (i # p) m"
      by (auto elim: reaches.cases)
    ultimately show ?thesis by simp
  qed
qed

lemma reaches_append:
  "reaches r p m \<Longrightarrow> reaches m q m' \<Longrightarrow> reaches r (p @ q) m'"
  by (induction rule: reaches.induct) (simp_all add: reaches.intros)

lemma reaches_split:
  "reaches r (p @ q) m' \<Longrightarrow> \<exists>m. reaches r p m \<and> reaches m q m'"
proof (induction p arbitrary: r)
  case Nil
  then show ?case by (auto intro: reaches.intros)
next
  case (Cons i p)
  from Cons.prems have "i < length (childNodes r)" "reaches (childNodes r ! i) (p @ q) m'"
    by (auto elim: reaches.cases)
  with Cons.IH show ?case by (blast intro: reaches.intros)
qed

lemma reaches_fun: "reaches r p m \<Longrightarrow> reaches r p m' \<Longrightarrow> m = m'"
  by (metis walkNodes_reaches option.inject)

lemma walkNodes_bad_index:
  "x \<in> set path \<Longrightarrow> x = None \<or> (\<exists>i. x = Some i \<and> i < 0) \<Longrightarrow> walkNodes parent path = None"
proof (induction path arbitrary: parent)
  case Nil
  then show ?case by simp
next
  case (Cons y path)
  show ?case
  proof (cases parent)
    case None
    then show ?thesis by simp
  next
    case (Some n)
    show ?thesis
    proof (cases "x = y")
      case True
      with Cons.prems(2) have "childAt n y = None" by (auto simp: childAt_def)
      with Some show ?thesis by (simp add: walkNodes_None)
    next
      case False
      with Cons.prems have "x \<in> set path" by simp
      from Cons.IH[OF this Cons.prems(2)] Some show ?thesis by simp
    qed
  qed
qed

text \<open>
  Claim C8. Resolving an address never fails with an error. A well-formed address, the
  indices of a path joined by dots, is decoded to that path; \<open>walkNodes\<close> returns the node
  that the successive child indices lead to when every index is in range, and the
  absent value when some index is out of range at its depth (or is \<open>NaN\<close> or negative,
  or the facade has no root). \<open>walkNodes\<close> is a total function.
\<close>

theorem walkNodes_total:
  "(p \<noteq> [] \<longrightarrow> getNodeByAddress a (encodePath p) = walkNodes (root a) (map (\<lambda>i. Some (int i)) p))
   \<and> (reaches r p m \<longrightarrow> walkNodes (Some r) (map (\<lambda>i. Some (int i)) p) = Some m)
   \<and> (k < length p \<and> reaches r (take k p) m \<and> length (childNodes m) \<le> p ! k
        \<longrightarrow> walkNodes (Some r) (map (\<lambda>i. Some (int i)) p) = None)
   \<and> (walkNodes (Some r) (map (\<lambda>i. Some (int i)) p) = None \<longleftrightarrow> \<not> (\<exists>m'. reaches r p m'))
   \<and> ((\<exists>x\<in>set path. x = None \<or> (\<exists>i. x = Some i \<and> i < 0)) \<longrightarrow> walkNodes parent path = None)
   \<and> walkNodes None path = None"
proof -
  have 1: "p \<noteq> [] \<Longrightarrow> getNodeByAddress a (encodePath p) = walkNodes (root a) (map (\<lambda>i. Some (int i)) p)"
    by (simp add: getNodeByAddress_def decode_encode)
  have 4: "walkNodes (Some r) (map (\<lambda>i. Some (int i)) p) = None \<longleftrightarrow> \<not> (\<exists>m'. reaches r p m')"
    using walkNodes_reaches[of r p] by (cases "walkNodes (Some r) (map (\<lambda>i. Some (int i)) p)") auto
  have 3: "walkNodes (Some r) (map (\<lambda>i. Some (int i)) p) = None"
    if k: "k < length p" and rk: "reaches r (take k p) m" and out: "length (childNodes m) \<le> p ! k"
  proof -
    have "\<not> (\<exists>m'. reaches r p m')"
    proof
      assume "\<exists>m'. reaches r p m'"
      then obtain m' where "reaches r p m'" ..
      moreover from k have "p = take k p @ p ! k # drop (Suc k) p"
        by (simp add: id_take_nth_drop)
      ultimately have "reaches r (take k p @ p ! k # drop (Suc k) p) m'" by simp
      from reaches_split[OF this] obtain m0 where
        m0: "reaches r (take k p) m0" "reaches m0 (p ! k # drop (Suc k) p) m'" by blast
      from reaches_fun[OF rk m0(1)] have "m0 = m" by simp
      with m0(2) have "p ! k < length (childNodes m)" by (auto elim: reaches.cases)
      with out show False by simp
    qed
    with 4 show ?thesis by simp
  qed
  have 2: "reaches r p m \<Longrightarrow> walkNodes (Some r) (map (\<lambda>i. Some (int i)) p) = Some m"
    by (simp add: walkNodes_reaches)
  have 5: "(\<exists>x\<in>set path. x = None \<or> (\<exists>i. x = Some i \<and> i < 0)) \<Longrightarrow> walkNodes parent path = None"
    using walkNodes_bad_index by blast
  have 6: "walkNodes None path = None" by (rule walkNodes_None)
  show ?thesis
  proof (intro conjI impI)
    show "getNodeByAddress a (encodePath p) = walkNodes (root a) (map (\<lambda>i. Some (int i)) p)"
      if "p \<noteq> []" using that by (rule 1)
    show "walkNodes (Some r) (map (\<lambda>i. Some (int i)) p) = Some m"
      if "reaches r p m" using that by (rule 2)
    show "walkNodes (Some r) (map (\<lambda>i. Some (int i)) p) = None"
      if "k < length p \<and> reaches r (take k p) m \<and> length (childNodes m) \<le> p ! k"
      using that 3 by blast
    show "walkNodes (Some r) (map (\<lambda>i. Some (int i)) p) = None \<longleftrightarrow> \<not> (\<exists>m'. reaches r p m')"
      by (rule 4)
    show "walkNodes parent path = None"
      if "\<exists>x\<in>set path. x = None \<or> (\<exists>i. x = Some i \<and> i < 0)" using that by (rule 5)
    show "walkNodes None path = None" by (rule 6)
  qed
qed

theorem walkNodes_total_witness:
  "getNodeByAddress (oneLeaf ''toucans'') ''0.0'' = Some (Node 3 ''toucans'' [])
   \<and> getNodeByAddress (oneLeaf ''toucans'') ''0.1'' = None
   \<and> walkNodes (root (oneLeaf ''toucans'')) [Some 0, None] = None"
proof -
  let ?leaf = "Node 3 ''toucans'' []"
  let ?p = "Node 1 [] [?leaf]"
  let ?r = "Node 1 [] [?p]"
  have rt: "root (oneLeaf ''toucans'') = Some ?r" by (simp add: oneLeaf_def construct_def)
  have e0: "encodePath [0, 0] = ''0.0''" by code_simp
  have e1: "encodePath [0, 1] = ''0.1''" by code_simp
  have r1: "reaches ?r [0] ?p"
    by (rule reaches_child) (simp_all add: reaches_here)
  have r2: "reaches ?r [0, 0] ?leaf"
    by (rule reaches_child, simp, simp, rule reaches_child) (simp_all add: reaches_here)
  have a: "getNodeByAddress (oneLeaf ''toucans'') ''0.0'' = Some ?leaf"
    using walkNodes_total[of "[0, 0]" "oneLeaf ''toucans''" ?r ?leaf 0 "[]" None] r2 rt e0
    by simp
  have b: "getNodeByAddress (oneLeaf ''toucans'') ''0.1'' = None"
    using walkNodes_total[of "[0, 1]" "oneLeaf ''toucans''" ?r ?p 1 "[]" None] r1 rt e1
    by simp
  have c: "walkNodes (root (oneLeaf ''toucans'')) [Some 0, None] = None"
    using walkNodes_total[of "[0]" "oneLeaf ''toucans''" ?r ?p 0 "[Some 0, None]" "root (oneLeaf ''toucans'')"]
    by simp
  from a b c show ?thesis by simp
qed

section \<open>The mapping of a tree\<close>

text \<open>
  \<open>leaves tt n\<close> lists, for the proofs, the paths and nodes behind the entries that
  \<open>getTextNodeMapping\<close> emits below \<open>n\<close>.
\<close>

fun leaves :: "nat \<Rightarrow> node \<Rightarrow> (nat list \<times> node) list"
  and leavesFrom :: "nat \<Rightarrow> nat \<Rightarrow> node list \<Rightarrow> (nat list \<times> node) list" where
  "leaves tt (Node ty tx cs) = leavesFrom tt 0 cs"
| "leavesFrom tt i [] = []"
| "leavesFrom tt i (n # ns) =
     (if nodeType n = tt then [([i], n)]
      else if childNodes n \<noteq> [] then map (\<lambda>(p, m). (i # p, m)) (leaves tt n)
      else [])
     @ leavesFrom tt (Suc i) ns"

lemma mapping_leaves:
  "getTextNodeMapping cfg n path
     = map (\<lambda>(p, m). (textContent m, encodePath (path @ p))) (leaves (textNodeType cfg) n)"
  and flatMapChildren_leaves: "flatMapChildren cfg path i cs
     = map (\<lambda>(p, m). (textContent m, encodePath (path @ p))) (leavesFrom (textNodeType cfg) i cs)"
proof (induction cfg n path and cfg path i cs rule: getTextNodeMapping_flatMapChildren.induct)
  case (1 cfg ty tx cs path)
  then show ?case by simp
next
  case (2 cfg path i)
  then show ?case by simp
next
  case (3 cfg path i n ns)
  then show ?case by (auto simp: case_prod_unfold comp_def)
qed

inductive textLeafAt :: "nat \<Rightarrow> node \<Rightarrow> nat list \<Rightarrow> node \<Rightarrow> bool" where
  leaf_here: "i < length (childNodes n) \<Longrightarrow> nodeType (childNodes n ! i) = tt
                \<Longrightarrow> textLeafAt tt n [i] (childNodes n ! i)"
| leaf_below: "i < length (childNodes n) \<Longrightarrow> nodeType (childNodes n ! i) \<noteq> tt
                \<Longrightarrow> textLeafAt tt (childNodes n ! i) p m \<Longrightarrow> textLeafAt tt n (i # p) m"

lemma textLeafAt_nonempty: "textLeafAt tt n p m \<Longrightarrow> p \<noteq> []"
  by (induction rule: textLeafAt.induct) auto

lemma in_set_map_Cons:
  "(p, m) \<in> set (map (\<lambda>(p, m). (i # p, m)) L) \<longleftrightarrow> (\<exists>q. p = i # q \<and> (q, m) \<in> set L)"
  by force

lemma leaves_iff:
  "(p, m) \<in> set (leaves tt n) \<longleftrightarrow> textLeafAt tt n p m"
  and leavesFrom_iff: "(p, m) \<in> set (leavesFrom tt i cs)
     \<longleftrightarrow> (\<exists>j q. p = (i + j) # q \<and> j < length cs
            \<and> (if nodeType (cs ! j) = tt then q = [] \<and> m = cs ! j
                else textLeafAt tt (cs ! j) q m))"
proof (induction tt n and tt i cs arbitrary: p m and p m rule: leaves_leavesFrom.induct)
  case (1 tt ty tx cs)
  have "textLeafAt tt (Node ty tx cs) p m
        \<longleftrightarrow> (\<exists>j q. p = j # q \<and> j < length cs
            \<and> (if nodeType (cs ! j) = tt then q = [] \<and> m = cs ! j
                else textLeafAt tt (cs ! j) q m))"
    by (subst textLeafAt.simps) (auto dest: textLeafAt_nonempty)
  with 1 show ?case by simp
next
  case (2 tt i)
  then show ?case by simp
next
  case (3 tt i n ns)
  let ?R = "\<lambda>cs j q. (if nodeType (cs ! j) = tt then q = [] \<and> m = cs ! j
                else textLeafAt tt (cs ! j) q m)"
  have tail: "(p, m) \<in> set (leavesFrom tt (Suc i) ns)
       \<longleftrightarrow> (\<exists>j q. p = (i + Suc j) # q \<and> j < length ns \<and> ?R (n # ns) (Suc j) q)"
    using "3.IH"(2)[of p m] by simp
  have head: "(p, m) \<in> set (if nodeType n = tt then [([i], n)]
               else if childNodes n \<noteq> [] then map (\<lambda>(p, m). (i # p, m)) (leaves tt n) else [])
       \<longleftrightarrow> (\<exists>q. p = i # q \<and> ?R (n # ns) 0 q)"
  proof (cases "nodeType n = tt")
    case True
    then show ?thesis by auto
  next
    case False
    show ?thesis
    proof (cases "childNodes n = []")
      case True
      have "\<not> textLeafAt tt n q m" for q
        using True by (auto elim: textLeafAt.cases)
      with False True show ?thesis by simp
    next
      case ne: False
      have e: "(if nodeType n = tt then [([i], n)]
               else if childNodes n \<noteq> [] then map (\<lambda>(p, m). (i # p, m)) (leaves tt n) else [])
             = map (\<lambda>(p, m). (i # p, m)) (leaves tt n)"
        using False ne by simp
      show ?thesis
        unfolding e in_set_map_Cons using "3.IH"(1)[OF False ne] False by simp
    qed
  qed
  have split: "(\<exists>j q. p = (i + j) # q \<and> j < length (n # ns) \<and> ?R (n # ns) j q)
       \<longleftrightarrow> (\<exists>q. p = i # q \<and> ?R (n # ns) 0 q)
          \<or> (\<exists>j q. p = (i + Suc j) # q \<and> j < length ns \<and> ?R (n # ns) (Suc j) q)"
    (is "?L \<longleftrightarrow> ?A \<or> ?B")
  proof
    assume ?L
    then obtain j q where jq: "p = (i + j) # q" "j < length (n # ns)" "?R (n # ns) j q" by blast
    show "?A \<or> ?B"
    proof (cases j)
      case 0
      with jq show ?thesis by auto
    next
      case (Suc j')
      with jq have "p = (i + Suc j') # q \<and> j' < length ns \<and> ?R (n # ns) (Suc j') q"
        by (auto split: if_splits)
      then show ?thesis by blast
    qed
  next
    assume "?A \<or> ?B"
    then show ?L
    proof
      assume ?A
      then obtain q where "p = (i + 0) # q" "?R (n # ns) 0 q" by auto
      then show ?L by (intro exI[of _ 0] exI[of _ q]) simp
    next
      assume ?B
      then obtain j q where "p = (i + Suc j) # q" "j < length ns" "?R (n # ns) (Suc j) q" by blast
      then show ?L by (intro exI[of _ "Suc j"] exI[of _ q]) simp
    qed
  qed
  have "(p, m) \<in> set (leavesFrom tt i (n # ns))
        \<longleftrightarrow> (p, m) \<in> set (if nodeType n = tt then [([i], n)]
               else if childNodes n \<noteq> [] then map (\<lambda>(p, m). (i # p, m)) (leaves tt n) else [])
            \<or> (p, m) \<in> set (leavesFrom tt (Suc i) ns)"
    by simp
  also have "\<dots> \<longleftrightarrow> (\<exists>q. p = i # q \<and> ?R (n # ns) 0 q)
          \<or> (\<exists>j q. p = (i + Suc j) # q \<and> j < length ns \<and> ?R (n # ns) (Suc j) q)"
    unfolding head tail ..
  also have "\<dots> \<longleftrightarrow> (\<exists>j q. p = (i + j) # q \<and> j < length (n # ns) \<and> ?R (n # ns) j q)"
    unfolding split ..
  finally show ?case .
qed

lemma reaches_Nil: "reaches n [] m \<longleftrightarrow> m = n"
  by (auto intro: reaches.intros elim: reaches.cases)

lemma reaches_Cons:
  "reaches n (i # q) m \<longleftrightarrow> i < length (childNodes n) \<and> reaches (childNodes n ! i) q m"
  by (auto intro: reaches.intros elim: reaches.cases)

lemma textLeafAt_Cons:
  "textLeafAt tt n (i # q) m \<longleftrightarrow>
     i < length (childNodes n)
     \<and> (if nodeType (childNodes n ! i) = tt then q = [] \<and> m = childNodes n ! i
        else textLeafAt tt (childNodes n ! i) q m)"
  by (subst textLeafAt.simps) (auto dest: textLeafAt_nonempty)

definition clearAbove :: "nat \<Rightarrow> node \<Rightarrow> nat list \<Rightarrow> bool" where
  "clearAbove tt n p \<longleftrightarrow>
     (\<forall>k m'. 0 < k \<and> k < length p \<and> reaches n (take k p) m' \<longrightarrow> nodeType m' \<noteq> tt)"

lemma clearAbove_Cons:
  assumes "i < length (childNodes n)"
  shows "clearAbove tt n (i # q)
         \<longleftrightarrow> (q \<noteq> [] \<longrightarrow> nodeType (childNodes n ! i) \<noteq> tt) \<and> clearAbove tt (childNodes n ! i) q"
proof
  assume L: "clearAbove tt n (i # q)"
  show "(q \<noteq> [] \<longrightarrow> nodeType (childNodes n ! i) \<noteq> tt) \<and> clearAbove tt (childNodes n ! i) q"
  proof
    show "q \<noteq> [] \<longrightarrow> nodeType (childNodes n ! i) \<noteq> tt"
    proof
      assume "q \<noteq> []"
      then have "0 < (1::nat) \<and> 1 < length (i # q) \<and> reaches n (take 1 (i # q)) (childNodes n ! i)"
        using assms by (simp add: reaches_Cons reaches_Nil)
      with L show "nodeType (childNodes n ! i) \<noteq> tt" unfolding clearAbove_def by blast
    qed
    show "clearAbove tt (childNodes n ! i) q"
      unfolding clearAbove_def
    proof (intro allI impI)
      fix k m'
      assume "0 < k \<and> k < length q \<and> reaches (childNodes n ! i) (take k q) m'"
      then have "0 < Suc k \<and> Suc k < length (i # q) \<and> reaches n (take (Suc k) (i # q)) m'"
        using assms by (simp add: reaches_Cons)
      with L show "nodeType m' \<noteq> tt" unfolding clearAbove_def by blast
    qed
  qed
next
  assume R: "(q \<noteq> [] \<longrightarrow> nodeType (childNodes n ! i) \<noteq> tt) \<and> clearAbove tt (childNodes n ! i) q"
  show "clearAbove tt n (i # q)"
    unfolding clearAbove_def
  proof (intro allI impI)
    fix k m'
    assume a: "0 < k \<and> k < length (i # q) \<and> reaches n (take k (i # q)) m'"
    then obtain k' where k': "k = Suc k'" by (cases k) auto
    with a have r: "reaches (childNodes n ! i) (take k' q) m'" "k' < length q"
      by (simp_all add: reaches_Cons)
    show "nodeType m' \<noteq> tt"
    proof (cases k')
      case 0
      with r have "m' = childNodes n ! i" "q \<noteq> []" by (auto simp: reaches_Nil)
      with R show ?thesis by simp
    next
      case (Suc k'')
      with r R show ?thesis unfolding clearAbove_def by blast
    qed
  qed
qed

lemma clearAbove_short: "length p \<le> 1 \<Longrightarrow> clearAbove tt n p"
  unfolding clearAbove_def by auto

lemma textLeafAt_iff:
  "textLeafAt tt n p m
     \<longleftrightarrow> p \<noteq> [] \<and> reaches n p m \<and> nodeType m = tt \<and> clearAbove tt n p"
proof (induction p arbitrary: n)
  case Nil
  then show ?case by (auto dest: textLeafAt_nonempty)
next
  case (Cons i q)
  show ?case
  proof (cases "i < length (childNodes n)")
    case False
    then show ?thesis by (simp add: textLeafAt_Cons reaches_Cons)
  next
    case True
    let ?c = "childNodes n ! i"
    show ?thesis
    proof (cases "q = []")
      case qe: True
      with True show ?thesis
        by (auto simp: textLeafAt_Cons reaches_Cons reaches_Nil clearAbove_short
                 dest: textLeafAt_nonempty)
    next
      case qn: False
      have "textLeafAt tt n (i # q) m \<longleftrightarrow> nodeType ?c \<noteq> tt \<and> textLeafAt tt ?c q m"
        using True qn by (auto simp: textLeafAt_Cons)
      also have "\<dots> \<longleftrightarrow> nodeType ?c \<noteq> tt \<and> reaches ?c q m \<and> nodeType m = tt \<and> clearAbove tt ?c q"
        using Cons.IH[of ?c] qn by simp
      also have "\<dots> \<longleftrightarrow> i # q \<noteq> [] \<and> reaches n (i # q) m \<and> nodeType m = tt \<and> clearAbove tt n (i # q)"
        using True qn by (auto simp: reaches_Cons clearAbove_Cons)
      finally show ?thesis .
    qed
  qed
qed

lemma sorted_wrt_Cons_paths:
  "sorted_wrt (\<lambda>p q. (p, q) \<in> lexord less_than) (map ((#) i) ps)
     = sorted_wrt (\<lambda>p q. (p, q) \<in> lexord less_than) ps"
  by (induction ps) auto

lemma leaves_sorted:
  "sorted_wrt (\<lambda>p q. (p, q) \<in> lexord less_than) (map fst (leaves tt n))"
  and leavesFrom_sorted:
    "sorted_wrt (\<lambda>p q. (p, q) \<in> lexord less_than) (map fst (leavesFrom tt i cs))"
proof (induction tt n and tt i cs rule: leaves_leavesFrom.induct)
  case (1 tt ty tx cs)
  then show ?case by simp
next
  case (2 tt i)
  then show ?case by simp
next
  case (3 tt i n ns)
  let ?H = "if nodeType n = tt then [([i], n)]
            else if childNodes n \<noteq> [] then map (\<lambda>(p, m). (i # p, m)) (leaves tt n) else []"
  have H: "sorted_wrt (\<lambda>p q. (p, q) \<in> lexord less_than) (map fst ?H)"
  proof (cases "nodeType n \<noteq> tt \<and> childNodes n \<noteq> []")
    case True
    then have e: "map fst ?H = map ((#) i) (map fst (leaves tt n))"
      by (simp add: case_prod_unfold comp_def)
    from True "3.IH"(1) show ?thesis
      unfolding e sorted_wrt_Cons_paths by blast
  next
    case False
    then show ?thesis by auto
  qed
  have hd: "\<forall>p\<in>set (map fst ?H). \<exists>q. p = i # q"
    by (auto simp: case_prod_unfold)
  have tl: "\<forall>p\<in>set (map fst (leavesFrom tt (Suc i) ns)). \<exists>j q. p = (Suc i + j) # q"
    using leavesFrom_iff[of _ _ tt "Suc i" ns] by fastforce
  have cross: "\<forall>p\<in>set (map fst ?H). \<forall>p'\<in>set (map fst (leavesFrom tt (Suc i) ns)).
                 (p, p') \<in> lexord less_than"
  proof (intro ballI)
    fix p p'
    assume "p \<in> set (map fst ?H)" "p' \<in> set (map fst (leavesFrom tt (Suc i) ns))"
    with hd tl obtain q j q' where "p = i # q" "p' = (Suc i + j) # q'" by blast
    then show "(p, p') \<in> lexord less_than" by simp
  qed
  have e: "map fst (leavesFrom tt i (n # ns)) = map fst ?H @ map fst (leavesFrom tt (Suc i) ns)"
    by simp
  show ?case
    unfolding e sorted_wrt_append using H "3.IH"(2) cross by blast
qed

lemma indexPath_ints: "indexPath (map (\<lambda>i. Some (int i)) p) = p"
  by (simp add: indexPath_def comp_def)

lemma encodePath_inj:
  assumes "p \<noteq> []" "q \<noteq> []" "encodePath p = encodePath q"
  shows "p = q"
proof -
  from assms have "map (\<lambda>i. Some (int i)) p = map (\<lambda>i. Some (int i)) q"
    by (metis decode_encode)
  then have "indexPath (map (\<lambda>i. Some (int i)) p) = indexPath (map (\<lambda>i. Some (int i)) q)"
    by simp
  then show ?thesis by (simp only: indexPath_ints)
qed

lemma lexord_less_than_irrefl: "(p, p) \<notin> lexord less_than"
  by (meson irrefl_def irrefl_less_than lexord_irrefl)

lemma sorted_paths_distinct:
  "sorted_wrt (\<lambda>p q. (p, q) \<in> lexord less_than) ps \<Longrightarrow> distinct ps"
  by (induction ps) (auto simp: lexord_less_than_irrefl)

lemma mapping_addresses_distinct:
  "distinct (map snd (getTextNodeMapping cfg r []))"
proof -
  let ?ls = "leaves (textNodeType cfg) r"
  have ne: "\<forall>p\<in>set (map fst ?ls). p \<noteq> []"
    using leaves_iff textLeafAt_nonempty by fastforce
  have d: "distinct (map fst ?ls)" by (rule sorted_paths_distinct[OF leaves_sorted])
  have "map snd (getTextNodeMapping cfg r []) = map encodePath (map fst ?ls)"
    by (simp add: mapping_leaves case_prod_unfold comp_def)
  moreover have inj: "inj_on encodePath (set (map fst ?ls))"
    using ne by (intro inj_onI) (blast intro: encodePath_inj)
  have "distinct (map encodePath (map fst ?ls))"
    by (rule iffD2[OF distinct_map]) (rule conjI[OF d inj])
  ultimately show ?thesis by simp
qed

text \<open>
  Claim C5. The mapping built from a root has one entry for each node of the text type
  that is reached from the root through nodes of other types, and no other entry: in a
  tree whose nodes of the text type have no children, one entry for each text leaf below
  the root. The entry holds the text of the node and the child indices of its path
  joined by dots. The entries stand in the lexicographic order of their paths, which is
  the depth-first pre-order of the tree, so no path and no address occurs twice. The
  constructor stores this mapping, and rebuilding it with \<open>remap\<close> on the unchanged tree
  gives it again.
\<close>

theorem getTextNodeMapping_preorder:
  "(\<exists>ls. getTextNodeMapping cfg r [] = map (\<lambda>(p, m). (textContent m, encodePath p)) ls
        \<and> sorted_wrt (\<lambda>p q. (p, q) \<in> lexord less_than) (map fst ls)
        \<and> (\<forall>p m. (p, m) \<in> set ls \<longleftrightarrow>
              p \<noteq> [] \<and> reaches r p m \<and> nodeType m = textNodeType cfg
              \<and> (\<forall>k m'. 0 < k \<and> k < length p \<and> reaches r (take k p) m'
                    \<longrightarrow> nodeType m' \<noteq> textNodeType cfg))
        \<and> ((\<forall>p m. p \<noteq> [] \<and> reaches r p m \<and> nodeType m = textNodeType cfg \<longrightarrow> childNodes m = [])
            \<longrightarrow> (\<forall>p m. (p, m) \<in> set ls \<longleftrightarrow>
                    p \<noteq> [] \<and> reaches r p m \<and> nodeType m = textNodeType cfg)))
   \<and> distinct (map snd (getTextNodeMapping cfg r []))
   \<and> mapping (construct (Inr r) ty cr) = getTextNodeMapping (config (construct (Inr r) ty cr)) r []
   \<and> (\<forall>a'. remap None a = Inr a' \<longrightarrow>
         remap None a' = Inr a'
         \<and> (\<exists>r'. root a = Some r' \<and> mapping a' = getTextNodeMapping (config a) r' []))"
proof -
  let ?tt = "textNodeType cfg"
  let ?ls = "leaves ?tt r"
  have A: "getTextNodeMapping cfg r [] = map (\<lambda>(p, m). (textContent m, encodePath p)) ?ls"
    by (simp add: mapping_leaves)
  have B: "sorted_wrt (\<lambda>p q. (p, q) \<in> lexord less_than) (map fst ?ls)"
    by (rule leaves_sorted)
  have C: "\<forall>p m. (p, m) \<in> set ?ls \<longleftrightarrow>
              p \<noteq> [] \<and> reaches r p m \<and> nodeType m = ?tt
              \<and> (\<forall>k m'. 0 < k \<and> k < length p \<and> reaches r (take k p) m' \<longrightarrow> nodeType m' \<noteq> ?tt)"
    by (simp add: leaves_iff textLeafAt_iff clearAbove_def)
  have D: "\<forall>p m. (p, m) \<in> set ?ls \<longleftrightarrow> p \<noteq> [] \<and> reaches r p m \<and> nodeType m = ?tt"
    if leafy: "\<forall>p m. p \<noteq> [] \<and> reaches r p m \<and> nodeType m = ?tt \<longrightarrow> childNodes m = []"
  proof -
    have "clearAbove ?tt r p" if "reaches r p m" for p m
      unfolding clearAbove_def
    proof (intro allI impI notI)
      fix k m'
      assume a: "0 < k \<and> k < length p \<and> reaches r (take k p) m'" and t: "nodeType m' = ?tt"
      from a have "take k p \<noteq> []" by auto
      with a t leafy have c: "childNodes m' = []" by blast
      from a have "p = take k p @ p ! k # drop (Suc k) p" by (simp add: id_take_nth_drop)
      with that have "reaches r (take k p @ p ! k # drop (Suc k) p) m" by simp
      from reaches_split[OF this] obtain m0 where
        m0: "reaches r (take k p) m0" "reaches m0 (p ! k # drop (Suc k) p) m" by blast
      from a m0(1) have "m0 = m'" by (blast intro: reaches_fun)
      with m0(2) c show False by (simp add: reaches_Cons)
    qed
    then show ?thesis by (auto simp: leaves_iff textLeafAt_iff)
  qed
  have E: "distinct (map snd (getTextNodeMapping cfg r []))"
    by (rule mapping_addresses_distinct)
  have F: "mapping (construct (Inr r) ty cr) = getTextNodeMapping (config (construct (Inr r) ty cr)) r []"
    by (simp add: construct_def Let_def)
  have G: "remap None a' = Inr a'
         \<and> (\<exists>r'. root a = Some r' \<and> mapping a' = getTextNodeMapping (config a) r' [])"
    if "remap None a = Inr a'" for a'
    using that by (auto simp: remap_def split: option.splits)
  from A B C D have "\<exists>ls. getTextNodeMapping cfg r [] = map (\<lambda>(p, m). (textContent m, encodePath p)) ls
        \<and> sorted_wrt (\<lambda>p q. (p, q) \<in> lexord less_than) (map fst ls)
        \<and> (\<forall>p m. (p, m) \<in> set ls \<longleftrightarrow>
              p \<noteq> [] \<and> reaches r p m \<and> nodeType m = textNodeType cfg
              \<and> (\<forall>k m'. 0 < k \<and> k < length p \<and> reaches r (take k p) m'
                    \<longrightarrow> nodeType m' \<noteq> textNodeType cfg))
        \<and> ((\<forall>p m. p \<noteq> [] \<and> reaches r p m \<and> nodeType m = textNodeType cfg \<longrightarrow> childNodes m = [])
            \<longrightarrow> (\<forall>p m. (p, m) \<in> set ls \<longleftrightarrow>
                    p \<noteq> [] \<and> reaches r p m \<and> nodeType m = textNodeType cfg))"
    by (intro exI[of _ ?ls] conjI impI) assumption+
  moreover have "\<forall>a'. remap None a = Inr a' \<longrightarrow>
         remap None a' = Inr a'
         \<and> (\<exists>r'. root a = Some r' \<and> mapping a' = getTextNodeMapping (config a) r' [])"
    using G by blast
  ultimately show ?thesis using E F by blast
qed

fun childless :: "nat \<Rightarrow> node \<Rightarrow> bool"
  and childlessAll :: "nat \<Rightarrow> node list \<Rightarrow> bool" where
  "childless tt (Node ty tx cs) = childlessAll tt cs"
| "childlessAll tt [] = True"
| "childlessAll tt (n # ns) =
     ((nodeType n = tt \<longrightarrow> childNodes n = []) \<and> childless tt n \<and> childlessAll tt ns)"

lemma childlessAll_nth:
  "childlessAll tt cs \<Longrightarrow> i < length cs
     \<Longrightarrow> (nodeType (cs ! i) = tt \<longrightarrow> childNodes (cs ! i) = []) \<and> childless tt (cs ! i)"
proof (induction cs arbitrary: i)
  case Nil
  then show ?case by simp
next
  case (Cons c cs)
  then show ?case by (cases i) auto
qed

lemma childless_reaches:
  "childless tt r \<Longrightarrow> p \<noteq> [] \<Longrightarrow> reaches r p m \<Longrightarrow> nodeType m = tt \<Longrightarrow> childNodes m = []"
proof (induction p arbitrary: r)
  case Nil
  then show ?case by simp
next
  case (Cons i q)
  from Cons.prems(3) have i: "i < length (childNodes r)" and rq: "reaches (childNodes r ! i) q m"
    by (simp_all add: reaches_Cons)
  from Cons.prems(1) have "childlessAll tt (childNodes r)" by (cases r) simp
  from childlessAll_nth[OF this i]
  have c: "nodeType (childNodes r ! i) = tt \<longrightarrow> childNodes (childNodes r ! i) = []"
    and cl: "childless tt (childNodes r ! i)" by simp_all
  show ?case
  proof (cases "q = []")
    case True
    with rq have "m = childNodes r ! i" by (simp add: reaches_Nil)
    with c Cons.prems(4) show ?thesis by simp
  next
    case False
    from Cons.IH[OF cl False rq Cons.prems(4)] show ?thesis .
  qed
qed

definition aracariTree :: node where
  \<comment> \<open>\<open><div><p>An <b>aracari</b> or</p></div>\<close>\<close>
  "aracariTree = Node 1 [] [Node 1 [] [Node 3 ''An '' [], Node 1 [] [Node 3 ''aracari'' []], Node 3 '' or'' []]]"

theorem getTextNodeMapping_preorder_witness:
  "mapping (construct (Inr aracariTree) None None)
     = [(''An '', ''0.0''), (''aracari'', ''0.1.0''), ('' or'', ''0.2'')]
   \<and> (''aracari'', ''0.1.0'') \<in> set (mapping (construct (Inr aracariTree) None None))
   \<and> remap None (construct (Inr aracariTree) None None) = Inr (construct (Inr aracariTree) None None)"
proof -
  let ?a = "construct (Inr aracariTree) None None"
  let ?cfg = "config ?a"
  let ?leaf = "Node 3 ''aracari'' []"
  have tt: "textNodeType ?cfg = 3" by (simp add: construct_def Let_def)
  have rt: "root ?a = Some aracariTree" by (simp add: construct_def Let_def)
  have ev: "mapping ?a = [(''An '', ''0.0''), (''aracari'', ''0.1.0''), ('' or'', ''0.2'')]"
    by code_simp
  have leafy: "\<forall>p m. p \<noteq> [] \<and> reaches aracariTree p m \<and> nodeType m = textNodeType ?cfg
                 \<longrightarrow> childNodes m = []"
  proof -
    have "childless 3 aracariTree" by (simp add: aracariTree_def)
    then show ?thesis unfolding tt by (blast intro: childless_reaches)
  qed
  have r: "reaches aracariTree [0, 1, 0] ?leaf"
    by (simp add: reaches_Cons reaches_Nil aracariTree_def)
  have e: "encodePath [0, 1, 0] = ''0.1.0''" by code_simp
  note T = getTextNodeMapping_preorder[of ?cfg aracariTree None None ?a]
  from T[THEN conjunct1] obtain ls where
    m: "getTextNodeMapping ?cfg aracariTree [] = map (\<lambda>(p, m). (textContent m, encodePath p)) ls"
    and imp: "(\<forall>p m. p \<noteq> [] \<and> reaches aracariTree p m \<and> nodeType m = textNodeType ?cfg
                 \<longrightarrow> childNodes m = [])
              \<longrightarrow> (\<forall>p m. (p, m) \<in> set ls \<longleftrightarrow>
                p \<noteq> [] \<and> reaches aracariTree p m \<and> nodeType m = textNodeType ?cfg)"
    by (elim exE conjE)
  from imp leafy have iff: "\<forall>p m. (p, m) \<in> set ls \<longleftrightarrow>
                p \<noteq> [] \<and> reaches aracariTree p m \<and> nodeType m = textNodeType ?cfg"
    by (rule mp)
  from T[THEN conjunct2, THEN conjunct2, THEN conjunct1]
  have built: "mapping ?a = getTextNodeMapping ?cfg aracariTree []" .
  from iff r tt have "([0, 1, 0], ?leaf) \<in> set ls" by simp
  then have "(textContent ?leaf, encodePath [0, 1, 0])
               \<in> set (map (\<lambda>(p, m). (textContent m, encodePath p)) ls)"
    by force
  with m built e have inn: "(''aracari'', ''0.1.0'') \<in> set (mapping ?a)" by simp
  have "remap None ?a = Inr (?a\<lparr>mapping := getTextNodeMapping ?cfg aracariTree []\<rparr>)"
    using rt by (simp add: remap_def)
  with built have "remap None ?a = Inr ?a" by simp
  with ev inn show ?thesis by simp
qed

section \<open>From a text to its address and back\<close>

definition articles :: aracari where
  \<comment> \<open>\<open><div><p>The</p><p>the end</p></div>\<close>\<close>
  "articles = construct (Inr (Node 1 [] [Node 1 [] [Node 3 ''The'' []], Node 1 [] [Node 3 ''the end'' []]]))
                None None"

lemma find_unique_address:
  "distinct (map snd m) \<Longrightarrow> e \<in> set m \<Longrightarrow> find (\<lambda>(text, nodeAddress). nodeAddress = snd e) m = Some e"
proof (induction m)
  case Nil
  then show ?case by simp
next
  case (Cons x m)
  show ?case
  proof (cases "x = e")
    case True
    then show ?thesis by (simp add: case_prod_unfold)
  next
    case False
    with Cons.prems have "e \<in> set m" by simp
    with Cons.prems have "snd x \<noteq> snd e" by (auto simp: image_iff)
    with Cons \<open>e \<in> set m\<close> show ?thesis by (simp add: case_prod_unfold)
  qed
qed

text \<open>
  In a mapping without repeated addresses, looking up the address of the first entry
  that the lookup matches and reading the text at that address gives the text of that
  entry.
\<close>

lemma roundtrip_first_match:
  assumes "distinct (map snd (mapping a))"
    and "getMappingsForText a s cs pw = e # rest"
  shows "Option.bind (getAddressForText a s cs pw) (getTextByAddress a) = Some (fst e)"
proof -
  from assms(2) have "e \<in> set (getMappingsForText a s cs pw)" by simp
  then have "e \<in> set (mapping a)" by (simp add: getMappingsForText_def)
  from find_unique_address[OF assms(1) this] assms(2) show ?thesis
    by (simp add: getAddressForText_def getTextByAddress_def getMappingFromAddress_def)
qed

text \<open>
  Claim C6. For a string that occurs in the text of exactly one entry,
  \<open>getTextByAddress(getAddressForText(s))\<close> is to return the text of that entry. In the
  mapping of the leaves \<open>The\<close> and \<open>the end\<close> the string \<open>the\<close> occurs in the second entry
  only; the lookup, which ignores case when \<open>caseSensitive\<close> is true, returns the address of
  the first, and the text read back is \<open>The\<close>, which does not contain \<open>the\<close>.
\<close>

theorem roundtrip_wrong_leaf:
  "mapping articles = [(''The'', ''0.0''), (''the end'', ''1.0'')]
   \<and> filter (\<lambda>entry. sublist ''the'' (fst entry)) (mapping articles) = [(''the end'', ''1.0'')]
   \<and> getAddressForText articles ''the'' True False = Some ''0.0''
   \<and> Option.bind (getAddressForText articles ''the'' True False) (getTextByAddress articles) = Some ''The''
   \<and> \<not> sublist ''the'' ''The''"
proof -
  have m: "mapping articles = [(''The'', ''0.0''), (''the end'', ''1.0'')]" by code_simp
  have n: "\<not> sublist ''the'' ''The''" by code_simp
  have y: "sublist ''the'' ''the end''" by code_simp
  have g: "getMappingsForText articles ''the'' True False = [(''The'', ''0.0''), (''the end'', ''1.0'')]"
    by code_simp
  have d: "distinct (map snd (mapping articles))" unfolding m by simp
  from roundtrip_first_match[OF d g] g m n y show ?thesis
    by (simp add: getAddressForText_def)
qed

section \<open>The target of a replacement\<close>

text \<open>
  A resolved target lies in the tree at the path of its address, and the path is not
  empty: the target has a parent, in whose child list \<open>replaceWith\<close> puts the new nodes in
  its place.
\<close>

lemma split_on_nonempty: "split_on d s \<noteq> []"
  by (induction s) (auto split: list.splits)

lemma walkNodes_Some_path:
  "walkNodes (Some r) path = Some n \<Longrightarrow> path = map (\<lambda>i. Some (int i)) (indexPath path)"
proof (induction path arbitrary: r)
  case Nil
  then show ?case by (simp add: indexPath_def)
next
  case (Cons x path)
  from Cons.prems have c: "walkNodes (childAt r x) path = Some n" by simp
  then obtain r' where r': "childAt r x = Some r'"
    by (cases "childAt r x") (auto simp: walkNodes_None)
  then obtain i where x: "x = Some i" "0 \<le> i"
    by (auto simp: childAt_def split: option.splits if_splits)
  from Cons.IH[of r'] c r' have "path = map (\<lambda>i. Some (int i)) (indexPath path)" by simp
  with x show ?case by (simp add: indexPath_def)
qed

lemma targetNode_address:
  "targetNode a s options = Some n
     \<Longrightarrow> \<exists>address. targetAddress a s options = Some address \<and> getNodeByAddress a address = Some n"
  by (auto simp: targetNode_def targetAddress_def getTextNode_def Let_def
           split: option.splits if_splits)

lemma targetNode_reaches:
  assumes "targetNode a s options = Some n"
  shows "\<exists>r. root a = Some r \<and> reaches r (targetPath a s options) n \<and> targetPath a s options \<noteq> []"
proof -
  from targetNode_address[OF assms] obtain address where
    ad: "targetAddress a s options = Some address" and g: "getNodeByAddress a address = Some n"
    by blast
  let ?path = "decodeAddress address"
  from g have w: "walkNodes (root a) ?path = Some n" by (simp add: getNodeByAddress_def)
  then obtain r where r: "root a = Some r" by (cases "root a") (auto simp: walkNodes_None)
  from w r walkNodes_Some_path have p: "?path = map (\<lambda>i. Some (int i)) (indexPath ?path)" by simp
  with w r have "walkNodes (Some r) (map (\<lambda>i. Some (int i)) (indexPath ?path)) = Some n" by simp
  then have "reaches r (indexPath ?path) n" by (simp add: walkNodes_reaches)
  moreover have "indexPath ?path \<noteq> []"
    by (simp add: indexPath_def decodeAddress_def split_on_nonempty)
  ultimately show ?thesis using r ad by (simp add: targetPath_def)
qed

lemma replaceWith_at_parent:
  "reaches r p parent \<Longrightarrow> i < length (childNodes parent)
     \<Longrightarrow> reaches (replaceWith_at r (p @ [i]) new) p
           (Node (nodeType parent) (textContent parent)
              (take i (childNodes parent) @ new @ drop (Suc i) (childNodes parent)))"
proof (induction p arbitrary: r)
  case Nil
  then have pr: "parent = r" by (simp add: reaches_Nil)
  obtain ty tx cs where r: "r = Node ty tx cs" by (cases r)
  with pr Nil.prems(2) show ?case by (simp add: reaches_Nil)
next
  case (Cons j p)
  from Cons.prems(1) have j: "j < length (childNodes r)" and rp: "reaches (childNodes r ! j) p parent"
    by (simp_all add: reaches_Cons)
  obtain ty tx cs where r: "r = Node ty tx cs" by (cases r)
  obtain i' q where pq: "p @ [i] = i' # q" by (cases "p @ [i]") auto
  from j r have "replaceWith_at r ((j # p) @ [i]) new
                   = Node ty tx (cs[j := replaceWith_at (cs ! j) (p @ [i]) new])"
    by (simp add: pq)
  moreover from Cons.IH[OF _ Cons.prems(2), of "cs ! j"] rp r
  have "reaches (replaceWith_at (cs ! j) (p @ [i]) new) p
           (Node (nodeType parent) (textContent parent)
              (take i (childNodes parent) @ new @ drop (Suc i) (childNodes parent)))" by simp
  ultimately show ?case using j r by (simp add: reaches_Cons)
qed

section \<open>Matches and the segments between them\<close>

lemma exec_from_Some:
  "exec_from r s i = Some (b, e)
     \<Longrightarrow> i \<le> b \<and> b \<le> length s \<and> rx_match_at r s b = Some e
         \<and> (\<forall>j. i \<le> j \<and> j < b \<longrightarrow> rx_match_at r s j = None)"
proof (induction r s i rule: exec_from.induct)
  case (1 r s lastIndex)
  from "1.prems" have le: "\<not> length s < lastIndex"
    by (auto simp: exec_from.simps[of r s lastIndex] split: if_splits)
  show ?case
  proof (cases "rx_match_at r s lastIndex")
    case None
    with "1.prems" le have "exec_from r s (Suc lastIndex) = Some (b, e)"
      by (simp add: exec_from.simps[of r s lastIndex])
    from "1.IH"[OF le None this]
    have ih: "Suc lastIndex \<le> b" "b \<le> length s" "rx_match_at r s b = Some e"
      "\<forall>j. Suc lastIndex \<le> j \<and> j < b \<longrightarrow> rx_match_at r s j = None" by simp_all
    have "rx_match_at r s j = None" if "lastIndex \<le> j" "j < b" for j
    proof (cases "j = lastIndex")
      case True
      with None show ?thesis by simp
    next
      case False
      with that have "Suc lastIndex \<le> j" by simp
      with ih(4) that show ?thesis by blast
    qed
    with ih show ?thesis by simp
  next
    case (Some e')
    with "1.prems" le have "b = lastIndex" "e = e'"
      by (simp_all add: exec_from.simps[of r s lastIndex])
    with Some le show ?thesis by auto
  qed
qed

text \<open>
  \<open>segs t p spans\<close>: the pieces of \<open>t\<close> from \<open>p\<close> on that lie between the matches at \<open>spans\<close>.
  For a pattern that matches no empty string, \<open>split\<close> returns these pieces for the
  matches that \<open>match\<close> finds.
\<close>

fun segs :: "string \<Rightarrow> nat \<Rightarrow> (nat \<times> nat) list \<Rightarrow> string list" where
  "segs t p [] = [drop p t]"
| "segs t p ((b, e) # ms) = substring t p b # segs t e ms"

definition noEmptyMatch :: "regexp \<Rightarrow> string \<Rightarrow> bool" where
  "noEmptyMatch r s \<longleftrightarrow> (\<forall>i e. rx_match_at r s i = Some e \<longrightarrow> i < e)"

lemma matchAll_skip:
  "q \<le> length s \<Longrightarrow> rx_match_at r s q = None \<Longrightarrow> matchAll r s q = matchAll r s (Suc q)"
  by (simp add: matchAll.simps[of r s q] matchAll.simps[of r s "Suc q"] exec_from.simps[of r s q])

lemma matchAll_hit:
  "q \<le> length s \<Longrightarrow> rx_match_at r s q = Some e \<Longrightarrow> q < e
     \<Longrightarrow> matchAll r s q = (q, e) # matchAll r s e"
  by (simp add: matchAll.simps[of r s q] exec_from.simps[of r s q])

lemma matchAll_end:
  "noEmptyMatch r s \<Longrightarrow> length s \<le> q \<Longrightarrow> matchAll r s q = []"
proof -
  assume ne: "noEmptyMatch r s" and q: "length s \<le> q"
  have "rx_match_at r s (length s) = None"
  proof (cases "rx_match_at r s (length s)")
    case (Some e)
    with ne have "length s < e" by (simp add: noEmptyMatch_def)
    moreover from rx_match_at_bounds[OF Some] have "e \<le> length s" by simp
    ultimately show ?thesis by simp
  qed simp
  moreover have "j = length s" if "q \<le> j" "j \<le> length s" for j
    using that q by simp
  ultimately have "exec_from r s q = None"
    unfolding exec_from_None_iff by blast
  then show ?thesis by (simp add: matchAll_Nil_iff)
qed

lemma split_loop_segs:
  "noEmptyMatch r s \<Longrightarrow> p \<le> q \<Longrightarrow> q \<le> length s
     \<Longrightarrow> split_loop r s p q = segs s p (matchAll r s q)"
proof (induction r s p q rule: split_loop.induct)
  case (1 r s p q)
  note ne = "1.prems"(1)
  show ?case
  proof (cases "q < length s")
    case False
    with "1.prems" have q: "q = length s" by simp
    from matchAll_end[OF ne] q have "matchAll r s q = []" by simp
    with False show ?thesis
      by (simp add: split_loop.simps[of r s p q] substring_def)
  next
    case True
    show ?thesis
    proof (cases "rx_match_at r s q")
      case None
      from "1.IH"(1)[OF True None] "1.prems" True ne
      have "split_loop r s p (Suc q) = segs s p (matchAll r s (Suc q))" by simp
      with None True matchAll_skip[of q s r] show ?thesis
        by (simp add: split_loop.simps[of r s p q])
    next
      case (Some e0)
      from ne Some have lt: "q < e0" by (simp add: noEmptyMatch_def)
      from rx_match_at_bounds[OF Some] True have le: "e0 \<le> length s" by simp
      then have mn: "min e0 (length s) = e0" by simp
      from lt "1.prems" have np: "e0 \<noteq> p" by simp
      from "1.IH"(3)[OF True Some mn[symmetric] np] le ne
      have "split_loop r s e0 e0 = segs s e0 (matchAll r s e0)" by simp
      with Some True mn np matchAll_hit[OF _ Some lt] show ?thesis
        by (simp add: split_loop.simps[of r s p q])
    qed
  qed
qed

lemma str_split_segs:
  assumes "noEmptyMatch r s"
  shows "str_split s r = segs s 0 (matchAll r s 0)"
proof (cases "s = []")
  case True
  have "rx_match_at r s 0 = None"
  proof (cases "rx_match_at r s 0")
    case (Some e)
    with assms have "0 < e" by (simp add: noEmptyMatch_def)
    moreover from rx_match_at_bounds[OF Some] True have "e = 0" by simp
    ultimately show ?thesis by simp
  qed simp
  moreover from matchAll_end[OF assms, of 0] True have "matchAll r s 0 = []" by simp
  ultimately show ?thesis using True by (simp add: str_split_def)
next
  case False
  with split_loop_segs[OF assms, of 0 0] show ?thesis by (simp add: str_split_def)
qed

lemma substring_append:
  "p \<le> b \<Longrightarrow> b \<le> e \<Longrightarrow> substring t p b @ substring t b e = substring t p e"
proof -
  assume pb: "p \<le> b" and be: "b \<le> e"
  have "take (e - p) (drop p t) = take (b - p) (drop p t) @ take (e - b) (drop (b - p) (drop p t))"
    using pb be take_add[of "b - p" "e - b" "drop p t"] by simp
  with pb show ?thesis by (simp add: substring_def)
qed

lemma substring_drop:
  "p \<le> b \<Longrightarrow> substring t p b @ drop b t = drop p t"
proof -
  assume pb: "p \<le> b"
  have "take (b - p) (drop p t) @ drop (b - p) (drop p t) = drop p t"
    by (rule append_take_drop_id)
  with pb show ?thesis by (simp add: substring_def)
qed

text \<open>\<open>chain p spans n\<close>: the spans follow one another from \<open>p\<close> to \<open>n\<close> without overlap.\<close>

fun chain :: "nat \<Rightarrow> (nat \<times> nat) list \<Rightarrow> nat \<Rightarrow> bool" where
  "chain p [] n \<longleftrightarrow> p \<le> n"
| "chain p ((b, e) # ms) n \<longleftrightarrow> p \<le> b \<and> b \<le> e \<and> chain e ms n"

lemma chain_le: "chain p ms n \<Longrightarrow> p \<le> n"
proof (induction ms arbitrary: p)
  case Nil
  then show ?case by simp
next
  case (Cons x ms)
  obtain b e where "x = (b, e)" by (cases x)
  with Cons.prems have "p \<le> b" "b \<le> e" "chain e ms n" by simp_all
  with Cons.IH[of e] show ?case by simp
qed

lemma chain_mono: "chain p' ms n \<Longrightarrow> p \<le> p' \<Longrightarrow> chain p ms n"
  by (cases ms) auto

lemma matchAll_chain:
  "i \<le> length s \<Longrightarrow> chain i (matchAll r s i) (length s)"
proof (induction r s i rule: matchAll.induct)
  case (1 r s lastIndex)
  show ?case
  proof (cases "exec_from r s lastIndex")
    case None
    with "1.prems" show ?thesis by (simp add: matchAll.simps[of r s lastIndex])
  next
    case (Some x)
    obtain b e where x: "x = (b, e)" by (cases x)
    from exec_from_bounds[OF Some[unfolded x]] have bd: "lastIndex \<le> b" "b \<le> e" "e \<le> length s"
      by simp_all
    let ?i' = "if e = b then Suc e else e"
    have "chain e (matchAll r s ?i') (length s)"
    proof (cases "?i' \<le> length s")
      case True
      from "1.IH"[OF Some x[symmetric] True] show ?thesis
        by (rule chain_mono) simp
    next
      case False
      then have "exec_from r s ?i' = None"
        by (simp add: exec_from.simps[of r s ?i'])
      then have "matchAll r s ?i' = []" by (simp add: matchAll_Nil_iff)
      with bd show ?thesis by simp
    qed
    with Some x bd show ?thesis by (simp add: matchAll.simps[of r s lastIndex])
  qed
qed

lemma matchAll_matches:
  "(b, e) \<in> set (matchAll r s i) \<Longrightarrow> rx_match_at r s b = Some e \<and> b \<le> length s"
proof (induction r s i rule: matchAll.induct)
  case (1 r s lastIndex)
  show ?case
  proof (cases "exec_from r s lastIndex")
    case None
    with "1.prems" show ?thesis by (simp add: matchAll.simps[of r s lastIndex])
  next
    case (Some x)
    obtain b' e' where x: "x = (b', e')" by (cases x)
    from "1.prems" Some x
    have "(b, e) = (b', e') \<or> (b, e) \<in> set (matchAll r s (if e' = b' then Suc e' else e'))"
      by (simp add: matchAll.simps[of r s lastIndex])
    then show ?thesis
    proof
      assume "(b, e) = (b', e')"
      with exec_from_Some[OF Some[unfolded x]] show ?thesis by simp
    next
      assume "(b, e) \<in> set (matchAll r s (if e' = b' then Suc e' else e'))"
      from "1.IH"[OF Some x[symmetric] this] show ?thesis .
    qed
  qed
qed

text \<open>\<open>weave cs ms\<close>: the pieces \<open>cs\<close> joined with the separators \<open>ms\<close> in turn.\<close>

fun weave :: "string list \<Rightarrow> string list \<Rightarrow> string" where
  "weave [] ms = []"
| "weave [c] ms = c"
| "weave (c # c' # cs) [] = c"
| "weave (c # c' # cs) (m # ms) = c @ m @ weave (c' # cs) ms"

lemma weave_segs:
  "chain p spans (length t) \<Longrightarrow> weave (segs t p spans) (map (\<lambda>(b, e). substring t b e) spans) = drop p t"
proof (induction spans arbitrary: p)
  case Nil
  then show ?case by simp
next
  case (Cons x spans)
  obtain b e where x: "x = (b, e)" by (cases x)
  from Cons.prems x have c: "p \<le> b" "b \<le> e" "chain e spans (length t)" by simp_all
  from Cons.IH[OF c(3)]
  have ih: "weave (segs t e spans) (map (\<lambda>(b, e). substring t b e) spans) = drop e t" .
  obtain c0 cs where sg: "segs t e spans = c0 # cs" by (cases spans) auto
  have "weave (segs t p (x # spans)) (map (\<lambda>(b, e). substring t b e) (x # spans))
        = substring t p b @ substring t b e @ weave (segs t e spans) (map (\<lambda>(b, e). substring t b e) spans)"
    by (simp add: x sg)
  also have "\<dots> = substring t p b @ substring t b e @ drop e t" by (simp only: ih)
  also have "\<dots> = drop p t"
    using c by (simp add: substring_drop)
  finally show ?case .
qed

lemma segs_length: "length (segs t p spans) = Suc (length spans)"
  by (induction spans arbitrary: p) auto

lemma drop_segs:
  "k < length spans \<Longrightarrow> drop (Suc k) (segs t p spans) = segs t (snd (spans ! k)) (drop (Suc k) spans)"
proof (induction spans arbitrary: p k)
  case Nil
  then show ?case by simp
next
  case (Cons x spans)
  obtain b e where x: "x = (b, e)" by (cases x)
  show ?case
  proof (cases k)
    case 0
    then show ?thesis by (simp add: x)
  next
    case (Suc k')
    with Cons.prems have "k' < length spans" by simp
    from Cons.IH[OF this] Suc show ?thesis by (simp add: x)
  qed
qed

lemma chain_drop:
  "chain p spans n \<Longrightarrow> k < length spans \<Longrightarrow> chain (snd (spans ! k)) (drop (Suc k) spans) n"
proof (induction spans arbitrary: p k)
  case Nil
  then show ?case by simp
next
  case (Cons x spans)
  obtain b e where x: "x = (b, e)" by (cases x)
  show ?case
  proof (cases k)
    case 0
    with Cons.prems x show ?thesis by simp
  next
    case (Suc k')
    with Cons.prems x have "chain e spans n" "k' < length spans" by simp_all
    from Cons.IH[OF this] Suc show ?thesis by simp
  qed
qed

lemma chain_nth:
  "chain p spans n \<Longrightarrow> k < length spans
     \<Longrightarrow> p \<le> fst (spans ! k) \<and> fst (spans ! k) \<le> snd (spans ! k) \<and> snd (spans ! k) \<le> n"
proof (induction spans arbitrary: p k)
  case Nil
  then show ?case by simp
next
  case (Cons x spans)
  obtain b e where x: "x = (b, e)" by (cases x)
  show ?case
  proof (cases k)
    case 0
    from Cons.prems x have "p \<le> b" "b \<le> e" "chain e spans n" by simp_all
    moreover from \<open>chain e spans n\<close> have "e \<le> n" by (rule chain_le)
    ultimately show ?thesis using 0 x by simp
  next
    case (Suc k')
    with Cons.prems x have c: "chain e spans n" "k' < length spans" "p \<le> b" "b \<le> e" by simp_all
    from Cons.IH[OF c(1,2)] c Suc show ?thesis by simp
  qed
qed

lemma weave_take_segs:
  "chain p spans n \<Longrightarrow> k < length spans
     \<Longrightarrow> weave (take (Suc k) (segs t p spans)) (take k (map (\<lambda>(b, e). substring t b e) spans))
         = substring t p (fst (spans ! k))"
proof (induction spans arbitrary: p k)
  case Nil
  then show ?case by simp
next
  case (Cons x spans)
  obtain b e where x: "x = (b, e)" by (cases x)
  from Cons.prems x have c: "p \<le> b" "b \<le> e" "chain e spans n" by simp_all
  show ?case
  proof (cases k)
    case 0
    then show ?thesis by (simp add: x)
  next
    case (Suc k')
    with Cons.prems have k': "k' < length spans" by simp
    from Cons.IH[OF c(3) k']
    have ih: "weave (take (Suc k') (segs t e spans)) (take k' (map (\<lambda>(b, e). substring t b e) spans))
              = substring t e (fst (spans ! k'))" .
    from chain_nth[OF c(3) k'] have le: "e \<le> fst (spans ! k')" by simp
    obtain c0 cs where sg: "take (Suc k') (segs t e spans) = c0 # cs"
      by (cases "segs t e spans") (auto simp: segs_length dest: arg_cong[where f = length])
    have "weave (take (Suc k) (segs t p (x # spans))) (take k (map (\<lambda>(b, e). substring t b e) (x # spans)))
        = substring t p b @ substring t b e
            @ weave (take (Suc k') (segs t e spans)) (take k' (map (\<lambda>(b, e). substring t b e) spans))"
      by (simp add: x Suc sg)
    also have "\<dots> = substring t p b @ substring t b e @ substring t e (fst (spans ! k'))"
      by (simp only: ih)
    also have "\<dots> = substring t p (fst (spans ! k'))"
      using c le by (simp add: substring_append)
    finally show ?thesis by (simp add: Suc)
  qed
qed

section \<open>The boundary-aware pattern\<close>

lemma unescape_plain: "c \<noteq> CHR 0x5C \<Longrightarrow> unescape (c # r) = c # unescape r"
  by (cases r) auto

lemma backslash_special: "isRegExpChar (CHR 0x5C)"
  by (simp add: isRegExpChar_def code_def)

lemma unescape_escaped:
  "unescape (concat (map (\<lambda>c. if isRegExpChar c then [CHR 0x5C, c] else [c]) str)) = str"
proof (induction str)
  case Nil
  then show ?case by simp
next
  case (Cons c str)
  show ?case
  proof (cases "isRegExpChar c")
    case True
    with Cons show ?thesis by simp
  next
    case False
    with backslash_special have "c \<noteq> CHR 0x5C" by auto
    with False Cons show ?thesis by (simp add: unescape_plain)
  qed
qed

lemma unescape_no_special: "\<not> list_ex isRegExpChar str \<Longrightarrow> unescape str = str"
proof (induction str)
  case Nil
  then show ?case by simp
next
  case (Cons c str)
  with backslash_special have "c \<noteq> CHR 0x5C" by auto
  with Cons show ?case by (simp add: unescape_plain)
qed

lemma unescape_escapeRegExp: "unescape (escapeRegExp str) = str"
  by (auto simp: escapeRegExp_def unescape_escaped unescape_no_special)

lemma canonicalize_False: "map (canonicalize False) xs = xs"
  by (induction xs) (auto simp: canonicalize_def)

text \<open>\<open>litAt s t j\<close>: the search text \<open>s\<close> stands in \<open>t\<close> at index \<open>j\<close>.\<close>

definition litAt :: "string \<Rightarrow> string \<Rightarrow> nat \<Rightarrow> bool" where
  "litAt s t j \<longleftrightarrow> j + length s \<le> length t \<and> substring t j (j + length s) = s"

lemma match_plain:
  "rx_match_at (createRegExpSearch s False) t i = (if litAt s t i then Some (i + length s) else None)"
  by (simp add: rx_match_at_def createRegExpSearch_def literalPattern_def unescape_escapeRegExp
      canonicalize_False litAt_def)

definition endAfter :: "string \<Rightarrow> string \<Rightarrow> nat \<Rightarrow> nat option" where
  "endAfter s t j =
     (if litAt s t j then
        (if j + length s = length t then Some (j + length s)
         else if j + length s < length t \<and> isWordBoundaryChar (t ! (j + length s))
              then Some (Suc (j + length s)) else None)
      else None)"

lemma tail_run:
  "rx_run (Seq (Chars s) (Alt Eol (Cls isWordBoundaryChar))) False t j Some = endAfter s t j"
  by (auto simp: endAfter_def litAt_def canonicalize_False)

lemma head_run:
  "rx_run (Alt Bol (Cls P)) ic t i K =
     (case (if i = 0 then K i else None) of
        Some e \<Rightarrow> Some e
      | None \<Rightarrow> if i < length t \<and> P (t ! i) then K (Suc i) else None)"
  by (auto split: option.splits)

lemma match_word:
  "rx_match_at (createRegExpSearch s True) t i =
     (case (if i = 0 then endAfter s t i else None) of
        Some e \<Rightarrow> Some e
      | None \<Rightarrow> if i < length t \<and> isWordBoundaryChar (t ! i) then endAfter s t (Suc i) else None)"
proof -
  let ?A = "Alt Bol (Cls isWordBoundaryChar)"
  let ?X = "Seq (Chars s) (Alt Eol (Cls isWordBoundaryChar))"
  have "rx_match_at (createRegExpSearch s True) t i = rx_run (Seq ?A ?X) False t i Some"
    unfolding rx_match_at_def createRegExpSearch_def Let_def literalPattern_def unescape_escapeRegExp
    by (simp only: regexp.select_convs if_True)
  also have "\<dots> = rx_run ?A False t i (\<lambda>j. rx_run ?X False t j Some)"
    by simp
  also have "\<dots> = rx_run ?A False t i (endAfter s t)"
    by (simp only: tail_run)
  also have "\<dots> = (case (if i = 0 then endAfter s t i else None) of
        Some e \<Rightarrow> Some e
      | None \<Rightarrow> if i < length t \<and> isWordBoundaryChar (t ! i) then endAfter s t (Suc i) else None)"
    by (rule head_run)
  finally show ?thesis .
qed

lemma substring_one: "i < length t \<Longrightarrow> substring t i (Suc i) = [t ! i]"
  by (simp add: substring_def take_Suc_conv_app_nth[of 0] hd_drop_conv_nth take_Suc)

lemma substring_empty: "substring t i i = []"
  by (simp add: substring_def)

lemma endAfter_Some:
  "endAfter s t j = Some e \<Longrightarrow>
     litAt s t j \<and> (e = j + length s \<and> e = length t
                   \<or> e = Suc (j + length s) \<and> e \<le> length t \<and> isWordBoundaryChar (t ! (j + length s)))"
  by (auto simp: endAfter_def split: if_splits)

text \<open>
  \<open>flanked s t b e j\<close>: the match from \<open>b\<close> to \<open>e\<close> is the occurrence of \<open>s\<close> at \<open>j\<close> together
  with what the delimiters took: before it the start of the string (then \<open>j = b = 0\<close>) or
  the one boundary character \<open>t ! b\<close>, after it the end of the string or one boundary
  character.
\<close>

definition flanked :: "string \<Rightarrow> string \<Rightarrow> nat \<Rightarrow> nat \<Rightarrow> nat \<Rightarrow> bool" where
  "flanked s t b e j \<longleftrightarrow>
     litAt s t j
     \<and> (j = b \<and> b = 0 \<or> j = Suc b \<and> isWordBoundaryChar (t ! b))
     \<and> (e = j + length s \<and> e = length t
        \<or> e = Suc (j + length s) \<and> e \<le> length t \<and> isWordBoundaryChar (t ! (j + length s)))"

lemma word_match_flanked:
  assumes "rx_match_at (createRegExpSearch s True) t b = Some e"
  shows "\<exists>j. flanked s t b e j"
proof (cases "b = 0 \<and> endAfter s t b \<noteq> None")
  case True
  with assms have "endAfter s t b = Some e" by (auto simp: match_word)
  from endAfter_Some[OF this] True show ?thesis
    by (intro exI[of _ b]) (simp add: flanked_def)
next
  case False
  with assms have "b < length t \<and> isWordBoundaryChar (t ! b) \<and> endAfter s t (Suc b) = Some e"
    by (auto simp: match_word split: if_splits option.splits)
  with endAfter_Some[of s t "Suc b" e] show ?thesis
    by (intro exI[of _ "Suc b"]) (simp add: flanked_def)
qed

lemma flanked_substring:
  assumes "flanked s t b e j"
  shows "substring t b e = (if j = b then [] else [t ! b]) @ s
            @ (if e = j + length s then [] else [t ! (j + length s)])"
proof -
  from assms have lit: "j + length s \<le> length t" "substring t j (j + length s) = s"
    and bj: "j = b \<or> j = Suc b"
    and ej: "e = j + length s \<or> e = Suc (j + length s) \<and> e \<le> length t"
    by (auto simp: flanked_def litAt_def)
  from bj have le1: "b \<le> j" by auto
  from ej have le2: "j + length s \<le> e" by auto
  have "substring t b e = substring t b j @ substring t j (j + length s) @ substring t (j + length s) e"
    using le1 le2 by (simp add: substring_append)
  moreover have "substring t b j = (if j = b then [] else [t ! b])"
    using bj lit by (auto simp: substring_empty substring_one)
  moreover have "substring t (j + length s) e = (if e = j + length s then [] else [t ! (j + length s)])"
    using ej by (auto simp: substring_empty substring_one)
  ultimately show ?thesis using lit by simp
qed

text \<open>\<open>matchShape s m\<close>: \<open>m\<close> is \<open>s\<close> with at most one boundary character on each side.\<close>

definition matchShape :: "string \<Rightarrow> string \<Rightarrow> bool" where
  "matchShape s m \<longleftrightarrow>
     (\<exists>pre post. m = pre @ s @ post
        \<and> (pre = [] \<or> (\<exists>c. pre = [c] \<and> isWordBoundaryChar c))
        \<and> (post = [] \<or> (\<exists>d. post = [d] \<and> isWordBoundaryChar d)))"

lemma flanked_shape: "flanked s t b e j \<Longrightarrow> matchShape s (substring t b e)"
  unfolding matchShape_def
  by (rule exI[of _ "if j = b then [] else [t ! b]"],
      rule exI[of _ "if e = j + length s then [] else [t ! (j + length s)]"])
     (auto simp: flanked_substring flanked_def)

lemma plain_match_shape:
  "rx_match_at (createRegExpSearch s False) t b = Some e \<Longrightarrow> substring t b e = s \<and> e = b + length s"
  by (auto simp: match_plain litAt_def split: if_splits)

lemma match_shape:
  assumes "rx_match_at (createRegExpSearch s pw) t b = Some e"
  shows "matchShape s (substring t b e)"
proof (cases pw)
  case True
  with assms have "rx_match_at (createRegExpSearch s True) t b = Some e" by simp
  from word_match_flanked[OF this] obtain j where "flanked s t b e j" ..
  then show ?thesis by (rule flanked_shape)
next
  case False
  with assms have "rx_match_at (createRegExpSearch s False) t b = Some e" by simp
  from plain_match_shape[OF this] have "substring t b e = s" by (rule conjunct1)
  then show ?thesis unfolding matchShape_def by (intro exI[of _ "[]"]) simp
qed

lemma match_nonempty:
  assumes "s \<noteq> []"
  shows "noEmptyMatch (createRegExpSearch s pw) t"
  unfolding noEmptyMatch_def
proof (intro allI impI)
  fix i e
  assume m: "rx_match_at (createRegExpSearch s pw) t i = Some e"
  show "i < e"
  proof (cases pw)
    case True
    with m have "rx_match_at (createRegExpSearch s True) t i = Some e" by simp
    from word_match_flanked[OF this] obtain j where "flanked s t i e j" ..
    with assms show ?thesis by (auto simp: flanked_def)
  next
    case False
    with m have "rx_match_at (createRegExpSearch s False) t i = Some e" by simp
    from plain_match_shape[OF this] assms show ?thesis by simp
  qed
qed

text \<open>
  \<open>plainEnds s\<close>: the search text is not empty and neither starts nor ends with a boundary
  character; then \<open>getSurroundingChars\<close> finds in a match exactly the characters that the
  delimiters took.
\<close>

definition plainEnds :: "string \<Rightarrow> bool" where
  "plainEnds s \<longleftrightarrow> s \<noteq> [] \<and> \<not> isWordBoundaryChar (hd s) \<and> \<not> isWordBoundaryChar (last s)"

lemma surrounding_of_shape:
  assumes "plainEnds s" "m = pre @ s @ post"
    and "pre = [] \<or> (\<exists>c. pre = [c] \<and> isWordBoundaryChar c)"
    and "post = [] \<or> (\<exists>d. post = [d] \<and> isWordBoundaryChar d)"
  shows "getSurroundingChars (Some m) = (pre, post)"
proof -
  from assms(1) have ne: "s \<noteq> []" and h: "\<not> isWordBoundaryChar (hd s)"
    and l: "\<not> isWordBoundaryChar (last s)" by (simp_all add: plainEnds_def)
  from ne assms(2) have mne: "m \<noteq> []" by simp
  have hd: "hd m = (if pre = [] then hd s else hd pre)"
    using assms(2) ne by (cases pre) auto
  have lst: "last m = (if post = [] then last s else last post)"
    using assms(2) ne by (cases post rule: rev_cases) auto
  from assms(3) h hd have 1: "(if isWordBoundaryChar (hd m) then [hd m] else []) = pre" by auto
  from assms(4) l lst have 2: "(if isWordBoundaryChar (last m) then [last m] else []) = post" by auto
  from mne 1 2 show ?thesis by (simp add: getSurroundingChars_def Let_def)
qed

text \<open>\<open>rebuild s m\<close>: the separator that \<open>replaceText\<close> puts back for the match \<open>m\<close>.\<close>

definition rebuild :: "string \<Rightarrow> string option \<Rightarrow> string" where
  "rebuild s mt = (let (preChar, postChar) = getSurroundingChars mt in preChar @ s @ postChar)"

lemma rebuild_shape:
  assumes "plainEnds s" "matchShape s m"
  shows "rebuild s (Some m) = m"
proof -
  from assms(2) obtain pre post where
    m: "m = pre @ s @ post"
    and p: "pre = [] \<or> (\<exists>c. pre = [c] \<and> isWordBoundaryChar c)"
    and q: "post = [] \<or> (\<exists>d. post = [d] \<and> isWordBoundaryChar d)"
    unfolding matchShape_def by blast
  from surrounding_of_shape[OF assms(1) m p q] m show ?thesis
    by (simp add: rebuild_def)
qed

lemma joinArrayWith_fold:
  "foldl (\<lambda>acc (i, cur). acc @ (if i = 0 then [] else f i) @ cur) acc (enumerate n xs)
     = acc @ concat (map (\<lambda>(i, cur). (if i = 0 then [] else f i) @ cur) (enumerate n xs))"
  by (induction xs arbitrary: acc n) auto

lemma weave_concat:
  "0 < n \<Longrightarrow> weave (c # cs) (map f [n..<n + length cs])
     = c @ concat (map (\<lambda>(i, cur). (if i = 0 then [] else f i) @ cur) (enumerate n cs))"
proof (induction cs arbitrary: c n)
  case Nil
  then show ?case by simp
next
  case (Cons c' cs)
  have "[n..<n + length (c' # cs)] = n # [Suc n..<Suc n + length cs]"
    by (simp add: upt_rec)
  with Cons.IH[of "Suc n" c'] Cons.prems show ?case by simp
qed

lemma joinArrayWith_weave:
  "joinArrayWith cs f = weave cs (map f [1..<length cs])"
proof (cases cs)
  case Nil
  then show ?thesis by (simp add: joinArrayWith_def)
next
  case (Cons c cs')
  have "joinArrayWith cs f = c @ concat (map (\<lambda>(i, cur). (if i = 0 then [] else f i) @ cur) (enumerate 1 cs'))"
    by (simp add: joinArrayWith_def Cons joinArrayWith_fold)
  also have "\<dots> = weave (c # cs') (map f [1..<1 + length cs'])"
    by (rule weave_concat[symmetric]) simp
  finally show ?thesis by (simp add: Cons)
qed

section \<open>The text around a replacement\<close>

lemma replacementParts_alt:
  "replacementParts s t P tm k =
     (joinArrayWith (take (k + 1) (str_split t P)) (\<lambda>i. rebuild s (item tm (i - 1)))
        @ fst (getSurroundingChars (item tm k)),
      snd (getSurroundingChars (item tm k))
        @ joinArrayWith (drop (k + 1) (str_split t P)) (\<lambda>i. rebuild s (item tm i)))"
  by (simp add: replacementParts_def rebuild_def Let_def case_prod_unfold)

text \<open>
  When the search text has plain ends and the matches after the selected one read the
  same at the indices \<open>i\<close> and \<open>replacementIndex + i\<close> (so for \<open>replacementIndex = 0\<close> and for
  the last match), the two strings around the replacement are the text before the
  selected match with its leading boundary character, and its trailing boundary
  character with the text after the match.
\<close>

lemma replacementParts_exact:
  fixes s t :: string and pw :: bool and k :: nat
  defines "P \<equiv> createRegExpSearch s pw"
  defines "spans \<equiv> matchAll P t 0"
  defines "tm \<equiv> map (\<lambda>(b, e). substring t b e) spans"
  assumes good: "plainEnds s"
    and k: "k < length spans"
    and same: "\<forall>i. 1 \<le> i \<and> k + i < length spans \<longrightarrow> tm ! i = tm ! (k + i)"
  shows "replacementParts s t P tm k =
           (take (fst (spans ! k)) t @ fst (getSurroundingChars (Some (tm ! k))),
            snd (getSurroundingChars (Some (tm ! k))) @ drop (snd (spans ! k)) t)"
proof -
  let ?n = "length spans"
  from good have sne: "s \<noteq> []" by (simp add: plainEnds_def)
  have ne: "noEmptyMatch P t" unfolding P_def by (rule match_nonempty[OF sne])
  have contents: "str_split t P = segs t 0 spans"
    unfolding spans_def by (rule str_split_segs[OF ne])
  have ch: "chain 0 spans (length t)"
    unfolding spans_def by (rule matchAll_chain) simp
  have ltm: "length tm = ?n" by (simp add: tm_def)
  have shape: "matchShape s (tm ! j)" if "j < ?n" for j
  proof -
    obtain b e where be: "spans ! j = (b, e)" by (cases "spans ! j")
    with that have "(b, e) \<in> set (matchAll P t 0)"
      unfolding spans_def by (metis nth_mem)
    from matchAll_matches[OF this] have "rx_match_at (createRegExpSearch s pw) t b = Some e"
      by (simp add: P_def)
    from match_shape[OF this] be that show ?thesis by (simp add: tm_def)
  qed
  have rb: "rebuild s (item tm j) = tm ! j" if "j < ?n" for j
    using that rebuild_shape[OF good shape[OF that]] by (simp add: item_def ltm)
  have itk: "item tm k = Some (tm ! k)" using k by (simp add: item_def ltm)
  \<comment> \<open>the text before the selected match\<close>
  have lpre: "length (take (Suc k) (segs t 0 spans)) = Suc k"
    using k by (simp add: segs_length)
  have seps_pre: "map (\<lambda>i. rebuild s (item tm (i - 1))) [1..<Suc k] = take k tm"
  proof (rule nth_equalityI)
    show "length (map (\<lambda>i. rebuild s (item tm (i - 1))) [1..<Suc k]) = length (take k tm)"
      using k by (simp add: ltm del: upt_Suc)
  next
    fix j
    assume "j < length (map (\<lambda>i. rebuild s (item tm (i - 1))) [1..<Suc k])"
    then have j: "j < k" by (simp del: upt_Suc)
    then have "map (\<lambda>i. rebuild s (item tm (i - 1))) [1..<Suc k] ! j = rebuild s (item tm j)"
      by (simp add: nth_upt del: upt_Suc)
    also have "\<dots> = tm ! j" using j k by (simp add: rb)
    finally show "map (\<lambda>i. rebuild s (item tm (i - 1))) [1..<Suc k] ! j = take k tm ! j"
      using j by simp
  qed
  have preText: "joinArrayWith (take (k + 1) (str_split t P)) (\<lambda>i. rebuild s (item tm (i - 1)))
                   = take (fst (spans ! k)) t"
  proof -
    have "joinArrayWith (take (k + 1) (str_split t P)) (\<lambda>i. rebuild s (item tm (i - 1)))
            = weave (take (Suc k) (segs t 0 spans)) (take k tm)"
      by (simp only: joinArrayWith_weave contents Suc_eq_plus1[symmetric] lpre seps_pre)
    also have "\<dots> = substring t 0 (fst (spans ! k))"
      unfolding tm_def by (rule weave_take_segs[OF ch k])
    finally show ?thesis by (simp add: substring_def)
  qed
  \<comment> \<open>the text after the selected match\<close>
  let ?rest = "drop (Suc k) spans"
  let ?e = "snd (spans ! k)"
  have dr: "drop (Suc k) (segs t 0 spans) = segs t ?e ?rest"
    by (rule drop_segs[OF k])
  have lpost: "length (segs t ?e ?rest) = ?n - k"
    using k by (simp add: segs_length)
  have seps_post: "map (\<lambda>i. rebuild s (item tm i)) [1..<?n - k] = map (\<lambda>(b, e). substring t b e) ?rest"
  proof (rule nth_equalityI)
    show "length (map (\<lambda>i. rebuild s (item tm i)) [1..<?n - k])
            = length (map (\<lambda>(b, e). substring t b e) ?rest)"
      using k by simp
  next
    fix j
    assume "j < length (map (\<lambda>i. rebuild s (item tm i)) [1..<?n - k])"
    then have j: "Suc j < ?n - k" by simp
    then have "[1..<?n - k] ! j = 1 + j" by (intro nth_upt) simp
    with j have "map (\<lambda>i. rebuild s (item tm i)) [1..<?n - k] ! j = rebuild s (item tm (Suc j))"
      by simp
    also have "\<dots> = tm ! Suc j" using j by (simp add: rb)
    also have "\<dots> = tm ! (k + Suc j)" using same j by simp
    also have "\<dots> = map (\<lambda>(b, e). substring t b e) ?rest ! j"
      using j by (simp add: tm_def)
    finally show "map (\<lambda>i. rebuild s (item tm i)) [1..<?n - k] ! j
                    = map (\<lambda>(b, e). substring t b e) ?rest ! j" .
  qed
  have postText: "joinArrayWith (drop (k + 1) (str_split t P)) (\<lambda>i. rebuild s (item tm i))
                   = drop ?e t"
  proof -
    have "joinArrayWith (drop (k + 1) (str_split t P)) (\<lambda>i. rebuild s (item tm i))
            = weave (segs t ?e ?rest) (map (\<lambda>(b, e). substring t b e) ?rest)"
      by (simp only: joinArrayWith_weave contents Suc_eq_plus1[symmetric] dr lpost seps_post)
    also have "\<dots> = drop ?e t"
      by (rule weave_segs[OF chain_drop[OF ch k]])
    finally show ?thesis .
  qed
  show ?thesis
    by (simp only: replacementParts_alt preText postText itk)
qed

lemma surrounding_leading:
  "m \<noteq> [] \<Longrightarrow> isWordBoundaryChar (hd m) \<Longrightarrow> fst (getSurroundingChars (Some m)) = [hd m]"
  by (simp add: getSurroundingChars_def Let_def)

lemma surrounding_trailing:
  "m \<noteq> [] \<Longrightarrow> isWordBoundaryChar (last m) \<Longrightarrow> snd (getSurroundingChars (Some m)) = [last m]"
  by (simp add: getSurroundingChars_def Let_def)

lemma replaceText_success:
  assumes "targetNode a s options = Some n"
    and "str_match (textContent n) (createRegExpSearch s (case opt_preserveWord options of None \<Rightarrow> True | Some w \<Rightarrow> w)) = Some tm"
  shows "replaceText s nodes options a =
           (Inr (),
            a\<lparr>root := map_option (\<lambda>r. replaceWith_at r
                 (targetPath a s options)
                 (List.map_filter id
                   ([maybeCreateTextNode (config a)
                       (fst (replacementParts s (textContent n)
                          (createRegExpSearch s (case opt_preserveWord options of None \<Rightarrow> True | Some w \<Rightarrow> w))
                          tm (case opt_replacementIndex options of None \<Rightarrow> 0 | Some k \<Rightarrow> k)))]
                    @ map Some nodes
                    @ [maybeCreateTextNode (config a)
                       (snd (replacementParts s (textContent n)
                          (createRegExpSearch s (case opt_preserveWord options of None \<Rightarrow> True | Some w \<Rightarrow> w))
                          tm (case opt_replacementIndex options of None \<Rightarrow> 0 | Some k \<Rightarrow> k)))])))
               (root a)\<rparr>)"
  using assms by (simp add: replaceText_def Let_def case_prod_unfold)

lemma str_match_Some:
  "str_match t r = Some tm \<longleftrightarrow> matchAll r t 0 \<noteq> [] \<and> tm = map (\<lambda>(b, e). substring t b e) (matchAll r t 0)"
  by (auto simp: str_match_def split: list.splits)

lemma flanked_parts:
  assumes fl: "flanked s t b e j"
  shows "j = Suc b \<Longrightarrow> fst (getSurroundingChars (Some (substring t b e))) = [t ! b]"
    and "e = Suc (j + length s) \<Longrightarrow> snd (getSurroundingChars (Some (substring t b e))) = [t ! (j + length s)]"
proof -
  note sub = flanked_substring[OF fl]
  show "fst (getSurroundingChars (Some (substring t b e))) = [t ! b]" if "j = Suc b"
  proof -
    from that sub have m: "substring t b e = t ! b # s @ (if e = j + length s then [] else [t ! (j + length s)])"
      by simp
    from fl that have "isWordBoundaryChar (t ! b)" by (auto simp: flanked_def)
    with m show ?thesis by (simp add: surrounding_leading)
  qed
  show "snd (getSurroundingChars (Some (substring t b e))) = [t ! (j + length s)]"
    if "e = Suc (j + length s)"
  proof -
    from that sub have m: "substring t b e = ((if j = b then [] else [t ! b]) @ s) @ [t ! (j + length s)]"
      by simp
    from fl that have "isWordBoundaryChar (t ! (j + length s))" by (auto simp: flanked_def)
    with m show ?thesis by (simp add: surrounding_trailing)
  qed
qed

lemma flanked_exact:
  assumes good: "plainEnds s" and fl: "flanked s t b e j"
  shows "take b t @ fst (getSurroundingChars (Some (substring t b e))) = take j t"
    and "snd (getSurroundingChars (Some (substring t b e))) @ drop e t = drop (j + length s) t"
    and "take j t @ s @ drop (j + length s) t = t"
proof -
  let ?pre = "if j = b then [] else [t ! b]"
  let ?post = "if e = j + length s then [] else [t ! (j + length s)]"
  from fl have lit: "j + length s \<le> length t" "substring t j (j + length s) = s"
    and bj: "j = b \<or> j = Suc b \<and> isWordBoundaryChar (t ! b)"
    and ej: "e = j + length s \<or> e = Suc (j + length s) \<and> e \<le> length t \<and> isWordBoundaryChar (t ! (j + length s))"
    by (auto simp: flanked_def litAt_def)
  have g: "getSurroundingChars (Some (substring t b e)) = (?pre, ?post)"
    using bj ej by (intro surrounding_of_shape[OF good flanked_substring[OF fl]]) auto
  from good have "s \<noteq> []" by (simp add: plainEnds_def)
  with lit have jl: "j < length t" by (cases s) auto
  show "take b t @ fst (getSurroundingChars (Some (substring t b e))) = take j t"
    using bj jl by (auto simp: g take_Suc_conv_app_nth)
  show "snd (getSurroundingChars (Some (substring t b e))) @ drop e t = drop (j + length s) t"
    using ej by (auto simp: g Cons_nth_drop_Suc)
  have "take j t @ substring t j (j + length s) @ drop (j + length s) t = t"
    using substring_drop[of j "j + length s" t] by simp
  with lit show "take j t @ s @ drop (j + length s) t = t" by simp
qed

text \<open>
  A successful call replaces the target in the child list of its parent by the text
  before, the given nodes and the text after; empty texts are left out, and the other
  children of the parent keep their places.
\<close>

lemma replaceText_in_place:
  assumes node: "targetNode a s options = Some n"
    and ok: "fst (replaceText s nodes options a) = Inr ()"
  shows "\<exists>r p i parent tm new.
           root a = Some r \<and> targetPath a s options = p @ [i]
           \<and> reaches r p parent \<and> i < length (childNodes parent) \<and> childNodes parent ! i = n
           \<and> str_match (textContent n)
                (createRegExpSearch s (case opt_preserveWord options of None \<Rightarrow> True | Some w \<Rightarrow> w))
               = Some tm
           \<and> new = List.map_filter id
                 ([maybeCreateTextNode (config a)
                     (fst (replacementParts s (textContent n)
                        (createRegExpSearch s (case opt_preserveWord options of None \<Rightarrow> True | Some w \<Rightarrow> w))
                        tm (case opt_replacementIndex options of None \<Rightarrow> 0 | Some k \<Rightarrow> k)))]
                  @ map Some nodes
                  @ [maybeCreateTextNode (config a)
                     (snd (replacementParts s (textContent n)
                        (createRegExpSearch s (case opt_preserveWord options of None \<Rightarrow> True | Some w \<Rightarrow> w))
                        tm (case opt_replacementIndex options of None \<Rightarrow> 0 | Some k \<Rightarrow> k)))])
           \<and> root (snd (replaceText s nodes options a)) = Some (replaceWith_at r (p @ [i]) new)
           \<and> reaches (replaceWith_at r (p @ [i]) new) p
                 (Node (nodeType parent) (textContent parent)
                    (take i (childNodes parent) @ new @ drop (Suc i) (childNodes parent)))"
proof -
  from targetNode_reaches[OF node] obtain r where
    r: "root a = Some r" and re: "reaches r (targetPath a s options) n"
    and ne: "targetPath a s options \<noteq> []" by blast
  from ne obtain p i where pi: "targetPath a s options = p @ [i]"
    by (cases "targetPath a s options" rule: rev_cases) auto
  from re pi have "reaches r (p @ [i]) n" by simp
  from reaches_split[OF this] obtain parent where
    par: "reaches r p parent" and ch: "reaches parent [i] n" by blast
  from ch have i: "i < length (childNodes parent)" "childNodes parent ! i = n"
    by (simp_all add: reaches_Cons reaches_Nil)
  let ?P = "createRegExpSearch s (case opt_preserveWord options of None \<Rightarrow> True | Some w \<Rightarrow> w)"
  from ok node obtain tm where tm: "str_match (textContent n) ?P = Some tm"
    by (cases "str_match (textContent n) ?P") (auto simp: replaceText_def Let_def)
  let ?new = "List.map_filter id
                 ([maybeCreateTextNode (config a)
                     (fst (replacementParts s (textContent n) ?P
                        tm (case opt_replacementIndex options of None \<Rightarrow> 0 | Some k \<Rightarrow> k)))]
                  @ map Some nodes
                  @ [maybeCreateTextNode (config a)
                     (snd (replacementParts s (textContent n) ?P
                        tm (case opt_replacementIndex options of None \<Rightarrow> 0 | Some k \<Rightarrow> k)))])"
  from replaceText_success[OF node tm, of nodes] r pi
  have rt: "root (snd (replaceText s nodes options a)) = Some (replaceWith_at r (p @ [i]) ?new)"
    by simp
  from replaceWith_at_parent[OF par i(1), of ?new]
  have rp: "reaches (replaceWith_at r (p @ [i]) ?new) p
                 (Node (nodeType parent) (textContent parent)
                    (take i (childNodes parent) @ ?new @ drop (Suc i) (childNodes parent)))" .
  show ?thesis
    by (intro exI[of _ r] exI[of _ p] exI[of _ i] exI[of _ parent] exI[of _ tm] exI[of _ ?new] conjI)
       (fact r pi par i tm rt rp refl)+
qed

definition wordOptions :: replaceOptions where
  "wordOptions = noOptions\<lparr>opt_preserveWord := Some True\<rparr>"

text \<open>
  Claim C4. With \<open>preserveWord\<close> true (or not given) every match of the pattern is an occurrence of the
  search text flanked on each side by the end of the string or by one boundary
  character, which the match takes in. When the call succeeds the target node is replaced
  by the text before, the given nodes and the text after; a boundary character taken in
  by the selected match ends the text before, respectively starts the text after. For a
  search text with plain ends the two texts are exactly the node's text before and after
  the occurrence (for the first and the last match, and whenever the later matches read
  the same at the indices \<open>i\<close> and \<open>replacementIndex + i\<close>). In \<open>Done is the one thing.\<close> the
  word \<open>one\<close> becomes \<open>uno\<close>; in \<open>foo-bar\<close> replacing \<open>foo\<close> gives \<open>baz-bar\<close>.
\<close>

theorem preserveWord_flanks:
  assumes given: "opt_preserveWord options \<noteq> Some False"
    and node: "targetNode a s options = Some n"
    and t: "t = textContent n"
    and P: "P = createRegExpSearch s True"
    and spans: "spans = matchAll P t 0"
    and tm: "tm = map (\<lambda>(b, e). substring t b e) spans"
    and k: "k = (case opt_replacementIndex options of None \<Rightarrow> 0 | Some k \<Rightarrow> k)"
    and parts: "parts = replacementParts s t P tm k"
  shows "(\<forall>(b, e)\<in>set spans. \<exists>j. flanked s t b e j)
    \<and> (spans \<noteq> [] \<longrightarrow>
         fst (replaceText s nodes options a) = Inr ()
         \<and> root (snd (replaceText s nodes options a))
             = map_option (\<lambda>r. replaceWith_at r
                 (targetPath a s options)
                 (List.map_filter id
                   ([maybeCreateTextNode (config a) (fst parts)] @ map Some nodes
                      @ [maybeCreateTextNode (config a) (snd parts)]))) (root a))
    \<and> (k < length spans \<longrightarrow>
         (\<forall>j. flanked s t (fst (spans ! k)) (snd (spans ! k)) j \<longrightarrow>
            (j = Suc (fst (spans ! k)) \<longrightarrow> (\<exists>preText. fst parts = preText @ [t ! fst (spans ! k)]))
            \<and> (snd (spans ! k) = Suc (j + length s) \<longrightarrow>
                  (\<exists>postText. snd parts = [t ! (j + length s)] @ postText))))
    \<and> (plainEnds s \<and> k < length spans
          \<and> (\<forall>i. 1 \<le> i \<and> k + i < length spans \<longrightarrow> tm ! i = tm ! (k + i)) \<longrightarrow>
         (\<exists>j. flanked s t (fst (spans ! k)) (snd (spans ! k)) j
            \<and> fst parts = take j t \<and> snd parts = drop (j + length s) t
            \<and> fst parts @ s @ snd parts = t))
    \<and> replaceAndRead ''one'' [Node 3 ''uno'' []] wordOptions (oneLeaf ''Done is the one thing.'')
         = Some ''Done is the uno thing.''
    \<and> replaceAndRead ''foo'' [Node 3 ''baz'' []] wordOptions (oneLeaf ''foo-bar'') = Some ''baz-bar''"
proof -
  have pw: "(case opt_preserveWord options of None \<Rightarrow> True | Some w \<Rightarrow> w) = True"
    using given by (cases "opt_preserveWord options") auto
  have fl: "\<exists>j. flanked s t b e j" if "(b, e) \<in> set spans" for b e
  proof -
    from that have "rx_match_at (createRegExpSearch s True) t b = Some e"
      unfolding spans P by (blast dest: matchAll_matches)
    then show ?thesis by (rule word_match_flanked)
  qed
  then have 1: "\<forall>(b, e)\<in>set spans. \<exists>j. flanked s t b e j" by blast
  have 2: "fst (replaceText s nodes options a) = Inr ()
         \<and> root (snd (replaceText s nodes options a))
             = map_option (\<lambda>r. replaceWith_at r
                 (targetPath a s options)
                 (List.map_filter id
                   ([maybeCreateTextNode (config a) (fst parts)] @ map Some nodes
                      @ [maybeCreateTextNode (config a) (snd parts)]))) (root a)"
    if ne: "spans \<noteq> []"
  proof -
    from ne have "str_match (textContent n)
        (createRegExpSearch s (case opt_preserveWord options of None \<Rightarrow> True | Some w \<Rightarrow> w)) = Some tm"
      by (simp add: str_match_Some pw tm spans P t)
    from replaceText_success[OF node this, of nodes] show ?thesis
      by (simp add: parts pw k P t)
  qed
  have nth: "tm ! k = substring t (fst (spans ! k)) (snd (spans ! k))" if "k < length spans"
    using that by (simp add: tm case_prod_unfold)
  have itk: "item tm k = Some (tm ! k)" if "k < length spans"
    using that by (simp add: item_def tm)
  have 3: "(j = Suc (fst (spans ! k)) \<longrightarrow> (\<exists>preText. fst parts = preText @ [t ! fst (spans ! k)]))
            \<and> (snd (spans ! k) = Suc (j + length s) \<longrightarrow>
                  (\<exists>postText. snd parts = [t ! (j + length s)] @ postText))"
    if kl: "k < length spans" and f: "flanked s t (fst (spans ! k)) (snd (spans ! k)) j" for j
  proof (intro conjI impI)
    assume "j = Suc (fst (spans ! k))"
    from flanked_parts(1)[OF f this]
    show "\<exists>preText. fst parts = preText @ [t ! fst (spans ! k)]"
      by (simp add: parts replacementParts_alt itk[OF kl] nth[OF kl])
  next
    assume "snd (spans ! k) = Suc (j + length s)"
    from flanked_parts(2)[OF f this]
    show "\<exists>postText. snd parts = [t ! (j + length s)] @ postText"
      by (simp add: parts replacementParts_alt itk[OF kl] nth[OF kl])
  qed
  have 4: "\<exists>j. flanked s t (fst (spans ! k)) (snd (spans ! k)) j
            \<and> fst parts = take j t \<and> snd parts = drop (j + length s) t
            \<and> fst parts @ s @ snd parts = t"
    if good: "plainEnds s" and kl: "k < length spans"
      and same: "\<forall>i. 1 \<le> i \<and> k + i < length spans \<longrightarrow> tm ! i = tm ! (k + i)"
  proof -
    from kl have "(fst (spans ! k), snd (spans ! k)) \<in> set spans" by simp
    from fl[OF this] obtain j where f: "flanked s t (fst (spans ! k)) (snd (spans ! k)) j" ..
    have ex: "parts = (take (fst (spans ! k)) t @ fst (getSurroundingChars (Some (tm ! k))),
            snd (getSurroundingChars (Some (tm ! k))) @ drop (snd (spans ! k)) t)"
      unfolding parts tm spans P
      by (rule replacementParts_exact[OF good kl[unfolded spans P] same[unfolded tm spans P]])
    from flanked_exact[OF good f] ex nth[OF kl]
    have "fst parts = take j t" "snd parts = drop (j + length s) t" "fst parts @ s @ snd parts = t"
      by simp_all
    with f show ?thesis by blast
  qed
  have 5: "replaceAndRead ''one'' [Node 3 ''uno'' []] wordOptions (oneLeaf ''Done is the one thing.'')
         = Some ''Done is the uno thing.''"
    by code_simp
  have 6: "replaceAndRead ''foo'' [Node 3 ''baz'' []] wordOptions (oneLeaf ''foo-bar'') = Some ''baz-bar''"
    by code_simp
  show ?thesis
  proof (intro conjI impI allI)
    show "\<forall>(b, e)\<in>set spans. \<exists>j. flanked s t b e j" by (rule 1)
  qed (use 2 3 4 5 6 in \<open>blast+\<close>)
qed

theorem preserveWord_flanks_witness:
  "fst (replaceText ''one'' [Node 3 ''uno'' []] wordOptions (oneLeaf ''Done is the one thing.'')) = Inr ()
   \<and> (\<exists>j. flanked ''one'' ''Done is the one thing.'' 11 16 j)
   \<and> fst (replacementParts ''one'' ''Done is the one thing.'' (createRegExpSearch ''one'' True) ['' one ''] 0)
        @ ''one''
        @ snd (replacementParts ''one'' ''Done is the one thing.'' (createRegExpSearch ''one'' True) ['' one ''] 0)
       = ''Done is the one thing.''"
proof -
  let ?t = "''Done is the one thing.''"
  let ?P = "createRegExpSearch ''one'' True"
  have pw: "opt_preserveWord wordOptions \<noteq> Some False"
    by (simp add: wordOptions_def noOptions_def)
  have k: "0 = (case opt_replacementIndex wordOptions of None \<Rightarrow> 0 | Some k \<Rightarrow> k)"
    by (simp add: wordOptions_def noOptions_def)
  have node: "targetNode (oneLeaf ?t) ''one'' wordOptions = Some (Node 3 ?t [])"
    by code_simp
  have t: "?t = textContent (Node 3 ?t [])" by simp
  have sp: "[(11, 16)] = matchAll ?P ?t 0" by code_simp
  have tm: "['' one ''] = map (\<lambda>(b, e). substring ?t b e) [(11, 16)]" by code_simp
  have good: "plainEnds ''one''" by code_simp
  note T = preserveWord_flanks[OF pw node t refl sp tm k refl, of "[Node 3 ''uno'' []]"]
  from T[THEN conjunct2, THEN conjunct1]
  have a: "fst (replaceText ''one'' [Node 3 ''uno'' []] wordOptions (oneLeaf ?t)) = Inr ()"
    by simp
  from T[THEN conjunct1] have b: "\<exists>j. flanked ''one'' ?t 11 16 j" by simp
  have h: "plainEnds ''one'' \<and> 0 < length [(11::nat, 16::nat)]
       \<and> (\<forall>i. 1 \<le> i \<and> 0 + i < length [(11::nat, 16::nat)] \<longrightarrow> ['' one ''] ! i = ['' one ''] ! (0 + i))"
    using good by simp
  from T[THEN conjunct2, THEN conjunct2, THEN conjunct2, THEN conjunct1, THEN mp, OF h]
  have c: "fst (replacementParts ''one'' ?t ?P ['' one ''] 0) @ ''one''
        @ snd (replacementParts ''one'' ?t ?P ['' one ''] 0) = ?t"
    by blast
  from a b c show ?thesis by blast
qed

section \<open>Selecting a match by its index\<close>

definition secondMatch :: replaceOptions where
  "secondMatch = noOptions\<lparr>opt_replacementIndex := Some 1\<rparr>"

text \<open>
  Claim C1. Replacing the match at \<open>replacementIndex\<close> is to leave every other character
  of the leaf as it was. The text after the selected match is joined with the separators
  \<open>textMatch[nextIndex]\<close>, where \<open>nextIndex\<close> counts within
  \<open>contents.slice(replacementIndex + 1)\<close>: for \<open>replacementIndex = 1\<close> in \<open>x a x, b x.\<close> the
  third match \<open> x.\<close> is put back as the second, \<open> x,\<close>, and the final full stop becomes a
  comma. The two instances of the claim hold.
\<close>

theorem replaceText_suffix_separators:
  "str_match ''x a x, b x.'' (createRegExpSearch ''x'' True) = Some [''x '', '' x,'', '' x.'']
   \<and> replaceAndRead ''x'' [Node 3 ''R'' []] secondMatch (oneLeaf ''x a x, b x.'') = Some ''x a R, b x,''
   \<and> replaceAndRead ''x'' [Node 3 ''R'' []] secondMatch (oneLeaf ''x a x, b x.'') \<noteq> Some ''x a R, b x.''
   \<and> replaceAndRead ''all'' [Node 3 ''todo'' []] noOptions (oneLeaf ''all the foo people are all bar'')
        = Some ''todo the foo people are all bar''
   \<and> replaceAndRead ''foo bar'' [Node 3 ''baz qux'' []] secondMatch (oneLeaf ''foo bar or foo bar'')
        = Some ''foo bar or baz qux''"
proof -
  have 1: "str_match ''x a x, b x.'' (createRegExpSearch ''x'' True) = Some [''x '', '' x,'', '' x.'']"
    by code_simp
  have 2: "replaceAndRead ''x'' [Node 3 ''R'' []] secondMatch (oneLeaf ''x a x, b x.'') = Some ''x a R, b x,''"
    by code_simp
  have 3: "replaceAndRead ''all'' [Node 3 ''todo'' []] noOptions (oneLeaf ''all the foo people are all bar'')
        = Some ''todo the foo people are all bar''"
    by code_simp
  have 4: "replaceAndRead ''foo bar'' [Node 3 ''baz qux'' []] secondMatch (oneLeaf ''foo bar or foo bar'')
        = Some ''foo bar or baz qux''"
    by code_simp
  from 1 2 3 4 show ?thesis by simp
qed

end
